theory Spec2Isabelle
  imports Main "HOL-Library.Word" "HOL-Library.AList" "HOL-Library.Multiset"
begin

unbundle bit_operations_syntax

chapter \<open>The local DNS record store of olm\<close>

text \<open>
  A shallow embedding of \<^verbatim>\<open>dns/dns_records.go\<close> (the trie-based record store) and of the
  flat-map variant of the same store. Go strings are byte sequences and are modelled as
  \<open>string\<close> (a list of 8-bit characters); a \<^verbatim>\<open>net.IP\<close> is a byte slice and is modelled as
  a list of 8-bit words; a nil slice is the empty list. The readers-writer lock serialises the
  operations, so each mutator is a function from the store to the updated store.
\<close>

section \<open>Library functions used by the store\<close>

subsection \<open>Strings\<close>

text \<open>
  Model of Go's \<^verbatim>\<open>strings.ToLower\<close> on strings of ASCII bytes, where the function moves
  the bytes \<open>A\<close> to \<open>Z\<close> to \<open>a\<close> to \<open>z\<close> and keeps every other byte. On a string with
  a byte above \<open>0x7F\<close> the function of the source maps by the Unicode case tables (U+212A to
  \<open>k\<close>, U+0130 to \<open>i\<close>, an invalid UTF-8 sequence to U+FFFD), which are outside this
  model: there \<open>ToLower\<close> is not the function of the source. The statements that compare
  names by their normal form, or classify a name by what it is after lower-casing, are
  therefore made for names of ASCII bytes, \<open>isASCII\<close>.
\<close>

definition toLowerChar :: "char \<Rightarrow> char" where
  "toLowerChar c =
     (let n = (of_char c :: nat) in if 65 \<le> n \<and> n \<le> 90 then char_of (n + 32) else c)"

definition ToLower :: "string \<Rightarrow> string" where
  "ToLower s = map toLowerChar s"

definition isASCII :: "string \<Rightarrow> bool" where
  "isASCII s = list_all (\<lambda>c. (of_char c :: nat) < 128) s"

definition backslash :: char where
  "backslash = CHR 0x5C"

text \<open>
  Model of \<^verbatim>\<open>dns.IsFqdn\<close> and \<^verbatim>\<open>dns.Fqdn\<close> of the miekg/dns library: a name is fully
  qualified when it ends with a dot that is not escaped, that is, when the dot is preceded by
  an even number of backslashes.
\<close>

definition IsFqdn :: "string \<Rightarrow> bool" where
  "IsFqdn s =
     (if s = [] \<or> last s \<noteq> CHR ''.'' then False
      else even (length (takeWhile (\<lambda>c. c = backslash) (rev (butlast s)))))"

definition Fqdn :: "string \<Rightarrow> string" where
  "Fqdn s = (if IsFqdn s then s else s @ ''.'')"

text \<open>Models of \<^verbatim>\<open>strings.HasSuffix\<close>, \<^verbatim>\<open>strings.TrimSuffix\<close> and \<^verbatim>\<open>strings.ContainsAny\<close>.\<close>

definition HasSuffix :: "string \<Rightarrow> string \<Rightarrow> bool" where
  "HasSuffix s suffix =
     (length suffix \<le> length s \<and> drop (length s - length suffix) s = suffix)"

definition TrimSuffix :: "string \<Rightarrow> string \<Rightarrow> string" where
  "TrimSuffix s suffix = (if HasSuffix s suffix then take (length s - length suffix) s else s)"

definition ContainsAny :: "string \<Rightarrow> string \<Rightarrow> bool" where
  "ContainsAny s chars = list_ex (\<lambda>c. c \<in> set chars) s"

text \<open>
  Models of \<^verbatim>\<open>strings.Split\<close> and \<^verbatim>\<open>strings.Join\<close> for a one-byte separator (the source
  only splits and joins on single bytes). Splitting the empty string gives one empty field.
\<close>

fun Split :: "string \<Rightarrow> char \<Rightarrow> string list" where
  "Split [] sep = [[]]"
| "Split (c # cs) sep =
     (if c = sep then [] # Split cs sep
      else (case Split cs sep of [] \<Rightarrow> [[c]] | f # fs \<Rightarrow> (c # f) # fs))"

fun Join :: "string list \<Rightarrow> string \<Rightarrow> string" where
  "Join [] sep = []"
| "Join [x] sep = x"
| "Join (x # y # ys) sep = x @ sep @ Join (y # ys) sep"

section \<open>Wildcard matching\<close>

text \<open>
  \<^verbatim>\<open>matchWildcardInternal\<close>: recursive backtracking over the byte positions \<open>pi\<close> of the
  pattern and \<open>di\<close> of the domain. The \<^verbatim>\<open>for\<close> loop of the anchored case tries every
  \<open>i\<close> from \<open>di + 1\<close> to \<open>dlen\<close>. Go would panic on \<^verbatim>\<open>pattern[pi]\<close> for
  \<open>pi > plen\<close>; \<^verbatim>\<open>matchWildcard\<close> starts at position 0 and never gets there, and the
  model answers \<open>False\<close> in that case.
\<close>

function matchWildcardInternal :: "string \<Rightarrow> string \<Rightarrow> nat \<Rightarrow> nat \<Rightarrow> bool" where
  "matchWildcardInternal pattern domain pi di =
     (if pi = length pattern \<and> di = length domain then True
      else if pi = length pattern then False
      else if length pattern < pi then False
      else if pattern ! pi = CHR ''*'' then
        (if pi = 0 \<and> pi + 1 < length pattern \<and> pattern ! (pi + 1) = CHR ''.'' then
           (if di = length domain then False
            else list_ex (\<lambda>i. matchWildcardInternal pattern domain (pi + 1) i)
                   [di + 1 ..< length domain + 1])
         else if matchWildcardInternal pattern domain (pi + 1) di then True
         else if di < length domain then matchWildcardInternal pattern domain pi (di + 1)
         else False)
      else if pattern ! pi = CHR ''?'' then
        (if length domain \<le> di then False
         else matchWildcardInternal pattern domain (pi + 1) (di + 1))
      else if length domain \<le> di \<or> pattern ! pi \<noteq> domain ! di then False
      else matchWildcardInternal pattern domain (pi + 1) (di + 1))"
  by pat_completeness auto
termination
  by (relation "measures [\<lambda>(p, d, pi, di). length p - pi, \<lambda>(p, d, pi, di). length d - di]") auto

declare matchWildcardInternal.simps [simp del]

definition matchWildcard :: "string \<Rightarrow> string \<Rightarrow> bool" where
  "matchWildcard pattern domain = matchWildcardInternal pattern domain 0 0"

section \<open>IP addresses\<close>

text \<open>
  A \<^verbatim>\<open>net.IP\<close> is a byte slice: 4 bytes for IPv4, 16 bytes for IPv6, and any other length
  is not a valid address. The definitions of this section are models of the methods of
  \<^verbatim>\<open>net.IP\<close> and of \<^verbatim>\<open>net.ParseIP\<close> in Go's standard library.
\<close>

type_synonym IP = "8 word list"

definition v4InV6Prefix :: IP where
  "v4InV6Prefix = [0, 0, 0, 0, 0, 0, 0, 0, 0, 0, 0xff, 0xff]"

text \<open>\<^verbatim>\<open>ip.To4()\<close>: the 4-byte form of an IPv4 or IPv4-mapped address, \<open>None\<close> for nil.\<close>

definition To4 :: "IP \<Rightarrow> IP option" where
  "To4 ip =
     (if length ip = 4 then Some ip
      else if length ip = 16 \<and> take 12 ip = v4InV6Prefix then Some (drop 12 ip)
      else None)"

text \<open>\<^verbatim>\<open>ip.To16()\<close>: the 16-byte form, \<open>None\<close> for nil.\<close>

definition To16 :: "IP \<Rightarrow> IP option" where
  "To16 ip =
     (if length ip = 4 then Some (v4InV6Prefix @ ip)
      else if length ip = 16 then Some ip
      else None)"

text \<open>\<^verbatim>\<open>ip.Equal(x)\<close>: an IPv4 address and its IPv4-mapped 16-byte form are equal.\<close>

definition Equal :: "IP \<Rightarrow> IP \<Rightarrow> bool" where
  "Equal ip x =
     (if length ip = length x then ip = x
      else if length ip = 4 \<and> length x = 16 then take 12 x = v4InV6Prefix \<and> ip = drop 12 x
      else if length ip = 16 \<and> length x = 4 then take 12 ip = v4InV6Prefix \<and> drop 12 ip = x
      else False)"

text \<open>Decimal and lower-case hexadecimal text of a number, without leading zeros
  (\<^verbatim>\<open>%d\<close> and \<^verbatim>\<open>%x\<close> of \<^verbatim>\<open>fmt.Sprintf\<close>).\<close>

definition digitChar :: "nat \<Rightarrow> char" where
  "digitChar n = char_of (48 + n)"

definition hexDigit :: "nat \<Rightarrow> char" where
  "hexDigit n = (if n < 10 then char_of (48 + n) else char_of (87 + n))"

fun fmtDec :: "nat \<Rightarrow> string" where
  "fmtDec n = (if n < 10 then [digitChar n] else fmtDec (n div 10) @ [digitChar (n mod 10)])"

fun fmtHex :: "nat \<Rightarrow> string" where
  "fmtHex n = (if n < 16 then [hexDigit n] else fmtHex (n div 16) @ [hexDigit (n mod 16)])"

declare fmtDec.simps [simp del] fmtHex.simps [simp del]

text \<open>
  \<^verbatim>\<open>ip.String()\<close>: dotted decimal for an address with a 4-byte form; otherwise the eight
  16-bit groups in hexadecimal, the longest run of two or more zero groups (the first of the
  longest) written as \<open>::\<close>. A slice of another length prints as \<open>?\<close> and its bytes in
  hexadecimal, an empty one as \<open><nil>\<close>.
\<close>

definition string4 :: "IP \<Rightarrow> string" where
  "string4 p4 = Join (map (\<lambda>b. fmtDec (unat b)) p4) ''.''"

definition v6u16 :: "IP \<Rightarrow> nat \<Rightarrow> nat" where
  "v6u16 ip i = 256 * unat (ip ! (2 * i)) + unat (ip ! (2 * i + 1))"

definition zeroRun :: "nat list \<Rightarrow> nat \<times> nat" where
  "zeroRun gs =
     fold (\<lambda>i (zeroStart, zeroEnd).
             let j = i + length (takeWhile (\<lambda>g. g = 0) (drop i gs)) in
             if 2 \<le> j - i \<and> zeroEnd - zeroStart < j - i then (i, j) else (zeroStart, zeroEnd))
          [0 ..< 8] (255, 255)"

definition string6 :: "IP \<Rightarrow> string" where
  "string6 ip =
     (let gs = map (v6u16 ip) [0 ..< 8]; (zeroStart, zeroEnd) = zeroRun gs in
      if zeroStart = 255 then Join (map fmtHex gs) '':''
      else Join (map fmtHex (take zeroStart gs)) '':'' @ ''::''
             @ Join (map fmtHex (drop zeroEnd gs)) '':'')"

definition hexByte :: "8 word \<Rightarrow> string" where
  "hexByte b = [hexDigit (unat b div 16), hexDigit (unat b mod 16)]"

definition IPString :: "IP \<Rightarrow> string" where
  "IPString ip =
     (if length ip = 0 then ''<nil>''
      else if length ip \<noteq> 4 \<and> length ip \<noteq> 16 then ''?'' @ concat (map hexByte ip)
      else (case To4 ip of Some p4 \<Rightarrow> string4 p4 | None \<Rightarrow> string6 ip))"

subsection \<open>Parsing\<close>

definition isDigit :: "char \<Rightarrow> bool" where
  "isDigit c = (48 \<le> (of_char c :: nat) \<and> (of_char c :: nat) \<le> 57)"

definition digitVal :: "char \<Rightarrow> nat" where
  "digitVal c = of_char c - 48"

definition hexVal :: "char \<Rightarrow> nat option" where
  "hexVal c =
     (let n = (of_char c :: nat) in
      if 48 \<le> n \<and> n \<le> 57 then Some (n - 48)
      else if 97 \<le> n \<and> n \<le> 102 then Some (n - 97 + 10)
      else if 65 \<le> n \<and> n \<le> 70 then Some (n - 65 + 10)
      else None)"

text \<open>
  The dotted-quad parser of \<^verbatim>\<open>net/netip\<close>: four decimal fields of at most 255 without
  leading zeros. \<open>prev\<close> is the byte before the current one (\<open>None\<close> at the start),
  \<open>fields\<close> the octets completed so far.
\<close>

fun parseIPv4Fields :: "string \<Rightarrow> char option \<Rightarrow> nat \<Rightarrow> nat \<Rightarrow> IP \<Rightarrow> IP option" where
  "parseIPv4Fields [] prev val digLen fields =
     (if length fields < 3 then None else Some (fields @ [of_nat val]))"
| "parseIPv4Fields (c # cs) prev val digLen fields =
     (if isDigit c then
        (if digLen = 1 \<and> val = 0 then None
         else if 255 < val * 10 + digitVal c then None
         else parseIPv4Fields cs (Some c) (val * 10 + digitVal c) (digLen + 1) fields)
      else if c = CHR ''.'' then
        (if prev = None \<or> cs = [] \<or> prev = Some (CHR ''.'') then None
         else if length fields = 3 then None
         else parseIPv4Fields cs (Some c) 0 0 (fields @ [of_nat val]))
      else None)"

definition parseIPv4 :: "string \<Rightarrow> IP option" where
  "parseIPv4 s = parseIPv4Fields s None 0 0 []"

text \<open>
  One hexadecimal group of an IPv6 text: the number of digits read, their value and the rest
  of the text; \<open>None\<close> for more than four digits.
\<close>

fun hexGroup :: "string \<Rightarrow> nat \<Rightarrow> nat \<Rightarrow> (nat \<times> nat \<times> string) option" where
  "hexGroup [] off acc = Some (off, acc, [])"
| "hexGroup (c # cs) off acc =
     (case hexVal c of
        None \<Rightarrow> Some (off, acc, c # cs)
      | Some v \<Rightarrow>
          if 3 < off then None
          else if 65535 < acc * 16 + v then None
          else hexGroup cs (off + 1) (acc * 16 + v))"

text \<open>
  The group loop of the IPv6 parser. \<open>ip\<close> holds the bytes written so far and
  \<open>ellipsis\<close> the byte position of \<open>::\<close>, if it was seen. The result is the text left
  over, the bytes and the ellipsis.
\<close>

function parseIPv6Groups ::
  "string \<Rightarrow> IP \<Rightarrow> nat option \<Rightarrow> (string \<times> IP \<times> nat option) option" where
  "parseIPv6Groups s ip ellipsis =
     (if 16 \<le> length ip then Some (s, ip, ellipsis)
      else
        (case hexGroup s 0 0 of
           None \<Rightarrow> None
         | Some (off, acc, rest) \<Rightarrow>
             if off = 0 then None
             else if rest \<noteq> [] \<and> hd rest = CHR ''.'' then
               (if ellipsis = None \<and> length ip \<noteq> 12 then None
                else if 16 < length ip + 4 then None
                else (case parseIPv4 s of
                        None \<Rightarrow> None
                      | Some fields \<Rightarrow> Some ([], ip @ fields, ellipsis)))
             else if rest = [] then
               Some ([], ip @ [of_nat (acc div 256), of_nat acc], ellipsis)
             else if hd rest \<noteq> CHR '':'' then None
             else if length rest = 1 then None
             else if hd (tl rest) = CHR '':'' then
               (if ellipsis \<noteq> None then None
                else if tl (tl rest) = [] then
                  Some ([], ip @ [of_nat (acc div 256), of_nat acc], Some (length ip + 2))
                else parseIPv6Groups (tl (tl rest)) (ip @ [of_nat (acc div 256), of_nat acc])
                       (Some (length ip + 2)))
             else parseIPv6Groups (tl rest) (ip @ [of_nat (acc div 256), of_nat acc]) ellipsis))"
  by pat_completeness auto
termination
  by (relation "measure (\<lambda>(s, ip, ellipsis). 16 - length ip)") auto

declare parseIPv6Groups.simps [simp del]

text \<open>
  The IPv6 parser. A text with a zone (\<open>%\<close>) is refused: an empty zone is a parse error and
  \<^verbatim>\<open>net.ParseIP\<close> rejects an address with a zone.
\<close>

definition parseIPv6 :: "string \<Rightarrow> IP option" where
  "parseIPv6 inp =
     (if CHR ''%'' \<in> set inp then None
      else
        (let lead = (2 \<le> length inp \<and> inp ! 0 = CHR '':'' \<and> inp ! 1 = CHR '':'');
             s = (if lead then drop 2 inp else inp);
             ellipsis0 = (if lead then Some 0 else None)
         in if lead \<and> s = [] then Some (replicate 16 0)
            else
              (case parseIPv6Groups s [] ellipsis0 of
                 None \<Rightarrow> None
               | Some (rest, ip, ellipsis) \<Rightarrow>
                   if rest \<noteq> [] then None
                   else if length ip < 16 then
                     (case ellipsis of
                        None \<Rightarrow> None
                      | Some e \<Rightarrow> Some (take e ip @ replicate (16 - length ip) 0 @ drop e ip))
                   else if ellipsis \<noteq> None then None
                   else Some ip)))"

text \<open>
  \<^verbatim>\<open>net.ParseIP\<close>: the first of the bytes \<open>.\<close>, \<open>:\<close> and \<open>%\<close> in the text selects
  the parser; the result is always in 16-byte form.
\<close>

definition ParseIP :: "string \<Rightarrow> IP option" where
  "ParseIP s =
     (case find (\<lambda>c. c = CHR ''.'' \<or> c = CHR '':'' \<or> c = CHR ''%'') s of
        None \<Rightarrow> None
      | Some c \<Rightarrow>
          if c = CHR ''.'' then map_option (\<lambda>fields. v4InV6Prefix @ fields) (parseIPv4 s)
          else if c = CHR '':'' then parseIPv6 s
          else None)"

section \<open>Reverse-DNS names\<close>

text \<open>\<^verbatim>\<open>reverseDNSToIP\<close>: \<open>None\<close> is the nil address.\<close>

definition reverseDNSToIP :: "string \<Rightarrow> IP option" where
  "reverseDNSToIP domain0 =
     (let domain = ToLower (Fqdn domain0) in
      if HasSuffix domain ''.in-addr.arpa.'' then
        (let ipPart = TrimSuffix domain ''.in-addr.arpa.'';
             parts = Split ipPart (CHR ''.'')
         in if length parts \<noteq> 4 then None
            else
              (let reversed = map (\<lambda>i. parts ! (3 - i)) [0 ..< 4]
               in ParseIP (Join reversed ''.'')))
      else if HasSuffix domain ''.ip6.arpa.'' then
        (let ipPart = TrimSuffix domain ''.ip6.arpa.'';
             parts = Split ipPart (CHR ''.'')
         in if length parts \<noteq> 32 then None
            else
              (let reversed = map (\<lambda>i. parts ! (31 - i)) [0 ..< 32];
                   ipv6Parts =
                     map (\<lambda>k. reversed ! (4 * k) @ reversed ! (4 * k + 1)
                                @ reversed ! (4 * k + 2) @ reversed ! (4 * k + 3)) [0 ..< 8]
               in ParseIP (Join ipv6Parts '':'')))
      else None)"

text \<open>\<^verbatim>\<open>IPToReverseDNS\<close>: the empty string for an address that is neither IPv4 nor
  IPv6.\<close>

definition IPToReverseDNS :: "IP \<Rightarrow> string" where
  "IPToReverseDNS ip =
     (case To4 ip of
        Some ip4 \<Rightarrow>
          Fqdn (fmtDec (unat (ip4 ! 3)) @ ''.'' @ fmtDec (unat (ip4 ! 2)) @ ''.''
                @ fmtDec (unat (ip4 ! 1)) @ ''.'' @ fmtDec (unat (ip4 ! 0)) @ ''.in-addr.arpa'')
      | None \<Rightarrow>
          (case To16 ip of
             Some ip6 \<Rightarrow>
               (let nibbles =
                      concat (map (\<lambda>i. [fmtHex (unat (ip6 ! i AND 0x0f)),
                                         fmtHex (unat (drop_bit 4 (ip6 ! i)))])
                                  (rev [0 ..< 16]))
                in Fqdn (Join nibbles ''.'' @ ''.ip6.arpa''))
           | None \<Rightarrow> ''''))"

section \<open>The trie-based record store\<close>

type_synonym RecordType = "16 word"

definition RecordTypeA :: RecordType where
  "RecordTypeA = 1"

definition RecordTypeAAAA :: RecordType where
  "RecordTypeAAAA = 28"

definition RecordTypePTR :: RecordType where
  "RecordTypePTR = 12"

text \<open>\<^verbatim>\<open>recordSet\<close>: the A and AAAA addresses of one domain or wildcard pattern.\<close>

record recordSet =
  A :: "IP list"
  AAAA :: "IP list"

text \<open>
  \<^verbatim>\<open>domainTrieNode\<close>: the children by label and the optional record set (\<open>None\<close> is the
  nil pointer). The child map is never iterated, so an association list with
  \<open>map_of\<close> for the lookup stands for it.
\<close>

datatype domainTrieNode =
  TrieNode (children: "(string \<times> domainTrieNode) list") (data: "recordSet option")

text \<open>
  \<^verbatim>\<open>DNSRecordStore\<close>. The wildcard map is iterated by \<^verbatim>\<open>GetRecords\<close> and
  \<^verbatim>\<open>HasRecord\<close>; Go leaves the iteration order of a map open, and the model iterates in
  the order of the association list. A statement about every store covers every order.
\<close>

record DNSRecordStore =
  root :: domainTrieNode
  wildcards :: "(string \<times> recordSet) list"
  ptrRecords :: "string \<rightharpoonup> string"

datatype error = ParseError string string

definition domainToPath :: "string \<Rightarrow> string list" where
  "domainToPath domain0 =
     (let domain = TrimSuffix (ToLower (Fqdn domain0)) ''.''
      in if domain = [] then [] else rev (Split domain (CHR ''.'')))"

definition NewDNSRecordStore :: DNSRecordStore where
  "NewDNSRecordStore =
     \<lparr>root = TrieNode [] None, wildcards = [], ptrRecords = Map.empty\<rparr>"

text \<open>
  The first statements of \<^verbatim>\<open>AddRecord\<close>, \<^verbatim>\<open>AddPTRRecord\<close> and \<^verbatim>\<open>RemoveRecord\<close>:
  a dot is appended to a name that does not end with one, then the name is made fully
  qualified and lower-cased.
\<close>

definition normalizeDomain :: "string \<Rightarrow> string" where
  "normalizeDomain domain =
     ToLower (Fqdn (if length domain = 0 \<or> last domain \<noteq> CHR ''.'' then domain @ ''.''
                    else domain))"

text \<open>
  The trie walk of \<^verbatim>\<open>RemoveRecord\<close>, \<^verbatim>\<open>GetRecords\<close> and \<^verbatim>\<open>HasRecord\<close>: follow the
  labels, \<open>None\<close> as soon as a child is missing.
\<close>

fun walk :: "domainTrieNode \<Rightarrow> string list \<Rightarrow> domainTrieNode option" where
  "walk node [] = Some node"
| "walk node (label # path) =
     (case map_of (children node) label of
        None \<Rightarrow> None
      | Some child \<Rightarrow> walk child path)"

text \<open>
  The trie part of \<^verbatim>\<open>AddRecord\<close>: follow the labels, creating the missing children, and
  append the address to the A or AAAA list of the last node, whose record set is created if
  it is nil. The source mutates the nodes in place; the model rebuilds the path.
\<close>

fun addAtPath :: "domainTrieNode \<Rightarrow> string list \<Rightarrow> bool \<Rightarrow> IP \<Rightarrow> domainTrieNode" where
  "addAtPath node [] isV4 ip =
     (let rs = (case data node of None \<Rightarrow> \<lparr>A = [], AAAA = []\<rparr> | Some rs \<Rightarrow> rs)
      in TrieNode (children node)
           (Some (if isV4 then rs\<lparr>A := A rs @ [ip]\<rparr> else rs\<lparr>AAAA := AAAA rs @ [ip]\<rparr>)))"
| "addAtPath node (label # path) isV4 ip =
     (let child = (case map_of (children node) label of
                     None \<Rightarrow> TrieNode [] None
                   | Some c \<Rightarrow> c)
      in TrieNode (AList.update label (addAtPath child path isV4 ip) (children node))
           (data node))"

definition AddRecord :: "DNSRecordStore \<Rightarrow> string \<Rightarrow> IP \<Rightarrow> error + DNSRecordStore" where
  "AddRecord s domain0 ip =
     (let domain = normalizeDomain domain0;
          isWildcard = ContainsAny domain ''*?'';
          isV4 = (To4 ip \<noteq> None)
      in if \<not> isV4 \<and> To16 ip = None then Inl (ParseError ''IP address'' (IPString ip))
         else if isWildcard then
           (let rs = (case map_of (wildcards s) domain of
                        None \<Rightarrow> \<lparr>A = [], AAAA = []\<rparr>
                      | Some rs \<Rightarrow> rs);
                rs' = (if isV4 then rs\<lparr>A := A rs @ [ip]\<rparr> else rs\<lparr>AAAA := AAAA rs @ [ip]\<rparr>)
            in Inr (s\<lparr>wildcards := AList.update domain rs' (wildcards s)\<rparr>))
         else
           Inr (s\<lparr>root := addAtPath (root s) (domainToPath domain) isV4 ip,
                  ptrRecords := (ptrRecords s)(IPString ip \<mapsto> domain)\<rparr>))"

definition AddPTRRecord :: "DNSRecordStore \<Rightarrow> IP \<Rightarrow> string \<Rightarrow> DNSRecordStore" where
  "AddPTRRecord s ip domain0 =
     (let domain = normalizeDomain domain0
      in s\<lparr>ptrRecords := (ptrRecords s)(IPString ip \<mapsto> domain)\<rparr>)"

text \<open>\<^verbatim>\<open>removeIP\<close>: the addresses that are not equal to the one to remove.\<close>

definition removeIP :: "IP list \<Rightarrow> IP \<Rightarrow> IP list" where
  "removeIP ips toRemove = filter (\<lambda>ip. \<not> Equal ip toRemove) ips"

text \<open>
  The guarded deletion of \<^verbatim>\<open>RemoveRecord\<close>: the PTR entry of an address is deleted only
  if it points to the domain being removed.
\<close>

definition deletePTRIfOwned :: "(string \<rightharpoonup> string) \<Rightarrow> IP \<Rightarrow> string \<Rightarrow> (string \<rightharpoonup> string)" where
  "deletePTRIfOwned ptr ip domain =
     (if ptr (IPString ip) = Some domain then ptr(IPString ip := None) else ptr)"

text \<open>Assignment to \<^verbatim>\<open>node.data\<close> of the node that the walk along \<open>path\<close> has found.\<close>

fun setData :: "domainTrieNode \<Rightarrow> string list \<Rightarrow> recordSet option \<Rightarrow> domainTrieNode" where
  "setData node [] d = TrieNode (children node) d"
| "setData node (label # path) d =
     (case map_of (children node) label of
        None \<Rightarrow> node
      | Some child \<Rightarrow>
          TrieNode (AList.update label (setData child path d) (children node)) (data node))"

text \<open>
  \<^verbatim>\<open>RemoveRecord\<close>. The address is \<open>None\<close> for Go's nil, which removes every record of
  the domain.
\<close>

definition RemoveRecord :: "DNSRecordStore \<Rightarrow> string \<Rightarrow> IP option \<Rightarrow> DNSRecordStore" where
  "RemoveRecord s domain0 ipOpt =
     (let domain = normalizeDomain domain0;
          isWildcard = ContainsAny domain ''*?''
      in if isWildcard then
           (case ipOpt of
              None \<Rightarrow> s\<lparr>wildcards := AList.delete domain (wildcards s)\<rparr>
            | Some ip \<Rightarrow>
                (case map_of (wildcards s) domain of
                   None \<Rightarrow> s
                 | Some rs \<Rightarrow>
                     (let rs' = (if To4 ip \<noteq> None then rs\<lparr>A := removeIP (A rs) ip\<rparr>
                                 else rs\<lparr>AAAA := removeIP (AAAA rs) ip\<rparr>)
                      in if length (A rs') = 0 \<and> length (AAAA rs') = 0
                         then s\<lparr>wildcards := AList.delete domain (wildcards s)\<rparr>
                         else s\<lparr>wildcards := AList.update domain rs' (wildcards s)\<rparr>)))
         else
           (let path = domainToPath domain in
            case walk (root s) path of
              None \<Rightarrow> s
            | Some node \<Rightarrow>
                (case data node of
                   None \<Rightarrow> s
                 | Some rs \<Rightarrow>
                     (case ipOpt of
                        None \<Rightarrow>
                          s\<lparr>ptrRecords :=
                               fold (\<lambda>ipAddr ptr. deletePTRIfOwned ptr ipAddr domain) (AAAA rs)
                                 (fold (\<lambda>ipAddr ptr. deletePTRIfOwned ptr ipAddr domain) (A rs)
                                    (ptrRecords s)),
                             root := setData (root s) path None\<rparr>
                      | Some ip \<Rightarrow>
                          (let rs' = (if To4 ip \<noteq> None then rs\<lparr>A := removeIP (A rs) ip\<rparr>
                                      else rs\<lparr>AAAA := removeIP (AAAA rs) ip\<rparr>);
                               ptr' = deletePTRIfOwned (ptrRecords s) ip domain
                           in s\<lparr>ptrRecords := ptr',
                                 root := setData (root s) path
                                           (if length (A rs') = 0 \<and> length (AAAA rs') = 0
                                            then None else Some rs')\<rparr>)))))"

definition RemovePTRRecord :: "DNSRecordStore \<Rightarrow> IP \<Rightarrow> DNSRecordStore" where
  "RemovePTRRecord s ip = s\<lparr>ptrRecords := (ptrRecords s)(IPString ip := None)\<rparr>"

text \<open>
  \<^verbatim>\<open>GetRecords\<close>: the exact records of the queried type if there are any, otherwise the
  lists of the matching wildcard entries, appended in iteration order.
\<close>

definition GetRecords :: "DNSRecordStore \<Rightarrow> string \<Rightarrow> RecordType \<Rightarrow> IP list" where
  "GetRecords s domain0 recordType =
     (let domain = ToLower (Fqdn domain0);
          path = domainToPath domain;
          ips = (case walk (root s) path of
                   None \<Rightarrow> []
                 | Some node \<Rightarrow>
                     (case data node of
                        None \<Rightarrow> []
                      | Some rs \<Rightarrow> if recordType = RecordTypeA then A rs else AAAA rs))
      in if 0 < length ips then ips
         else
           fold (\<lambda>(pattern, rs) records.
                   if \<not> matchWildcard pattern domain then records
                   else if recordType = RecordTypeA then records @ A rs
                   else records @ AAAA rs)
             (wildcards s) [])"

definition GetPTRRecord :: "DNSRecordStore \<Rightarrow> string \<Rightarrow> string \<times> bool" where
  "GetPTRRecord s domain =
     (case reverseDNSToIP domain of
        None \<Rightarrow> ('''', False)
      | Some ip \<Rightarrow>
          (case ptrRecords s (IPString ip) of
             Some ptrDomain \<Rightarrow> (ptrDomain, True)
           | None \<Rightarrow> ('''', False)))"

definition HasRecord :: "DNSRecordStore \<Rightarrow> string \<Rightarrow> RecordType \<Rightarrow> bool" where
  "HasRecord s domain0 recordType =
     (let domain = ToLower (Fqdn domain0);
          path = domainToPath domain
      in if (case walk (root s) path of
               None \<Rightarrow> False
             | Some node \<Rightarrow>
                 (case data node of
                    None \<Rightarrow> False
                  | Some rs \<Rightarrow>
                      (recordType = RecordTypeA \<and> 0 < length (A rs))
                      \<or> (recordType = RecordTypeAAAA \<and> 0 < length (AAAA rs))))
         then True
         else
           list_ex (\<lambda>(pattern, rs).
                      matchWildcard pattern domain
                      \<and> ((recordType = RecordTypeA \<and> 0 < length (A rs))
                         \<or> (recordType = RecordTypeAAAA \<and> 0 < length (AAAA rs))))
             (wildcards s))"

definition HasPTRRecord :: "DNSRecordStore \<Rightarrow> string \<Rightarrow> bool" where
  "HasPTRRecord s domain =
     (case reverseDNSToIP domain of
        None \<Rightarrow> False
      | Some ip \<Rightarrow> ptrRecords s (IPString ip) \<noteq> None)"

definition Clear :: "DNSRecordStore \<Rightarrow> DNSRecordStore" where
  "Clear s = s\<lparr>root := TrieNode [] None, wildcards := [], ptrRecords := Map.empty\<rparr>"

section \<open>The flat-map record store\<close>

text \<open>
  The second \<^verbatim>\<open>DNSRecordStore\<close> of the source keeps four maps from the full domain string to
  an address list, two for exact names and two for wildcard patterns, and the same PTR map. Its
  \<^verbatim>\<open>removeIP\<close>, \<^verbatim>\<open>matchWildcard\<close>, \<^verbatim>\<open>reverseDNSToIP\<close> and
  \<^verbatim>\<open>IPToReverseDNS\<close> are those of the trie-based store, word for word. The names of its
  operations carry the prefix \<open>flat\<close> here. The two wildcard maps are iterated, so they are
  association lists.
\<close>

record FlatStore =
  aRecords :: "string \<rightharpoonup> IP list"
  aaaaRecords :: "string \<rightharpoonup> IP list"
  aWildcards :: "(string \<times> IP list) list"
  aaaaWildcards :: "(string \<times> IP list) list"
  flatPtrRecords :: "string \<rightharpoonup> string"

definition flatNewDNSRecordStore :: FlatStore where
  "flatNewDNSRecordStore =
     \<lparr>aRecords = Map.empty, aaaaRecords = Map.empty, aWildcards = [], aaaaWildcards = [],
      flatPtrRecords = Map.empty\<rparr>"

text \<open>\<^verbatim>\<open>append(m[domain], ip)\<close> on a map of slices: a missing key reads as the nil slice.\<close>

definition sliceOf :: "IP list option \<Rightarrow> IP list" where
  "sliceOf v = (case v of None \<Rightarrow> [] | Some ips \<Rightarrow> ips)"

definition flatAddRecord :: "FlatStore \<Rightarrow> string \<Rightarrow> IP \<Rightarrow> error + FlatStore" where
  "flatAddRecord s domain0 ip =
     (let domain = normalizeDomain domain0;
          isWildcard = ContainsAny domain ''*?''
      in if To4 ip \<noteq> None then
           (if isWildcard then
              Inr (s\<lparr>aWildcards :=
                       AList.update domain (sliceOf (map_of (aWildcards s) domain) @ [ip])
                         (aWildcards s)\<rparr>)
            else
              Inr (s\<lparr>aRecords := (aRecords s)(domain \<mapsto> sliceOf (aRecords s domain) @ [ip]),
                     flatPtrRecords := (flatPtrRecords s)(IPString ip \<mapsto> domain)\<rparr>))
         else if To16 ip \<noteq> None then
           (if isWildcard then
              Inr (s\<lparr>aaaaWildcards :=
                       AList.update domain (sliceOf (map_of (aaaaWildcards s) domain) @ [ip])
                         (aaaaWildcards s)\<rparr>)
            else
              Inr (s\<lparr>aaaaRecords :=
                       (aaaaRecords s)(domain \<mapsto> sliceOf (aaaaRecords s domain) @ [ip]),
                     flatPtrRecords := (flatPtrRecords s)(IPString ip \<mapsto> domain)\<rparr>))
         else Inl (ParseError ''IP address'' (IPString ip)))"

definition flatAddPTRRecord :: "FlatStore \<Rightarrow> IP \<Rightarrow> string \<Rightarrow> FlatStore" where
  "flatAddPTRRecord s ip domain0 =
     (let domain = normalizeDomain domain0
      in s\<lparr>flatPtrRecords := (flatPtrRecords s)(IPString ip \<mapsto> domain)\<rparr>)"

definition flatRemoveRecord :: "FlatStore \<Rightarrow> string \<Rightarrow> IP option \<Rightarrow> FlatStore" where
  "flatRemoveRecord s domain0 ipOpt =
     (let domain = normalizeDomain domain0;
          isWildcard = ContainsAny domain ''*?''
      in case ipOpt of
           None \<Rightarrow>
             (if isWildcard then
                s\<lparr>aWildcards := AList.delete domain (aWildcards s),
                  aaaaWildcards := AList.delete domain (aaaaWildcards s)\<rparr>
              else
                (let ptr1 = (case aRecords s domain of
                               None \<Rightarrow> flatPtrRecords s
                             | Some ips \<Rightarrow>
                                 fold (\<lambda>ipAddr ptr. deletePTRIfOwned ptr ipAddr domain) ips
                                   (flatPtrRecords s));
                     ptr2 = (case aaaaRecords s domain of
                               None \<Rightarrow> ptr1
                             | Some ips \<Rightarrow>
                                 fold (\<lambda>ipAddr ptr. deletePTRIfOwned ptr ipAddr domain) ips ptr1)
                 in s\<lparr>flatPtrRecords := ptr2,
                       aRecords := (aRecords s)(domain := None),
                       aaaaRecords := (aaaaRecords s)(domain := None)\<rparr>))
         | Some ip \<Rightarrow>
             if To4 ip \<noteq> None then
               (if isWildcard then
                  (case map_of (aWildcards s) domain of
                     None \<Rightarrow> s
                   | Some ips \<Rightarrow>
                       if length (removeIP ips ip) = 0
                       then s\<lparr>aWildcards := AList.delete domain (aWildcards s)\<rparr>
                       else s\<lparr>aWildcards :=
                                AList.update domain (removeIP ips ip) (aWildcards s)\<rparr>)
                else
                  (case aRecords s domain of
                     None \<Rightarrow> s
                   | Some ips \<Rightarrow>
                       s\<lparr>aRecords :=
                           (if length (removeIP ips ip) = 0 then (aRecords s)(domain := None)
                            else (aRecords s)(domain \<mapsto> removeIP ips ip)),
                         flatPtrRecords := deletePTRIfOwned (flatPtrRecords s) ip domain\<rparr>))
             else if To16 ip \<noteq> None then
               (if isWildcard then
                  (case map_of (aaaaWildcards s) domain of
                     None \<Rightarrow> s
                   | Some ips \<Rightarrow>
                       if length (removeIP ips ip) = 0
                       then s\<lparr>aaaaWildcards := AList.delete domain (aaaaWildcards s)\<rparr>
                       else s\<lparr>aaaaWildcards :=
                                AList.update domain (removeIP ips ip) (aaaaWildcards s)\<rparr>)
                else
                  (case aaaaRecords s domain of
                     None \<Rightarrow> s
                   | Some ips \<Rightarrow>
                       s\<lparr>aaaaRecords :=
                           (if length (removeIP ips ip) = 0 then (aaaaRecords s)(domain := None)
                            else (aaaaRecords s)(domain \<mapsto> removeIP ips ip)),
                         flatPtrRecords := deletePTRIfOwned (flatPtrRecords s) ip domain\<rparr>))
             else s)"

definition flatRemovePTRRecord :: "FlatStore \<Rightarrow> IP \<Rightarrow> FlatStore" where
  "flatRemovePTRRecord s ip = s\<lparr>flatPtrRecords := (flatPtrRecords s)(IPString ip := None)\<rparr>"

definition flatGetRecords :: "FlatStore \<Rightarrow> string \<Rightarrow> RecordType \<Rightarrow> IP list" where
  "flatGetRecords s domain0 recordType =
     (let domain = ToLower (Fqdn domain0)
      in if recordType = RecordTypeA then
           (case aRecords s domain of
              Some ips \<Rightarrow> ips
            | None \<Rightarrow>
                fold (\<lambda>(pattern, ips) records.
                        if matchWildcard pattern domain then records @ ips else records)
                  (aWildcards s) [])
         else if recordType = RecordTypeAAAA then
           (case aaaaRecords s domain of
              Some ips \<Rightarrow> ips
            | None \<Rightarrow>
                fold (\<lambda>(pattern, ips) records.
                        if matchWildcard pattern domain then records @ ips else records)
                  (aaaaWildcards s) [])
         else [])"

definition flatGetPTRRecord :: "FlatStore \<Rightarrow> string \<Rightarrow> string \<times> bool" where
  "flatGetPTRRecord s domain =
     (case reverseDNSToIP domain of
        None \<Rightarrow> ('''', False)
      | Some ip \<Rightarrow>
          (case flatPtrRecords s (IPString ip) of
             Some ptrDomain \<Rightarrow> (ptrDomain, True)
           | None \<Rightarrow> ('''', False)))"

definition flatHasRecord :: "FlatStore \<Rightarrow> string \<Rightarrow> RecordType \<Rightarrow> bool" where
  "flatHasRecord s domain0 recordType =
     (let domain = ToLower (Fqdn domain0)
      in if recordType = RecordTypeA then
           (if aRecords s domain \<noteq> None then True
            else list_ex (\<lambda>(pattern, ips). matchWildcard pattern domain) (aWildcards s))
         else if recordType = RecordTypeAAAA then
           (if aaaaRecords s domain \<noteq> None then True
            else list_ex (\<lambda>(pattern, ips). matchWildcard pattern domain) (aaaaWildcards s))
         else False)"

definition flatHasPTRRecord :: "FlatStore \<Rightarrow> string \<Rightarrow> bool" where
  "flatHasPTRRecord s domain =
     (case reverseDNSToIP domain of
        None \<Rightarrow> False
      | Some ip \<Rightarrow> flatPtrRecords s (IPString ip) \<noteq> None)"

definition flatClear :: "FlatStore \<Rightarrow> FlatStore" where
  "flatClear s =
     s\<lparr>aRecords := Map.empty, aaaaRecords := Map.empty, aWildcards := [], aaaaWildcards := [],
       flatPtrRecords := Map.empty\<rparr>"

section \<open>Notions used in the statements\<close>

text \<open>The list of a record set that a query of the given type reads: the A list for type A,
  the AAAA list for every other type.\<close>

definition typedList :: "RecordType \<Rightarrow> recordSet \<Rightarrow> IP list" where
  "typedList recordType rs = (if recordType = RecordTypeA then A rs else AAAA rs)"

text \<open>The records that the trie holds for a name and a record type: the list of the node
  at the label path of the normalized name, empty if there is no such node or no record set.
  The wildcard entries whose pattern matches the normalized name.\<close>

definition exactRecords :: "DNSRecordStore \<Rightarrow> string \<Rightarrow> RecordType \<Rightarrow> IP list" where
  "exactRecords s domain recordType =
     (case walk (root s) (domainToPath (ToLower (Fqdn domain))) of
        None \<Rightarrow> []
      | Some node \<Rightarrow> (case data node of None \<Rightarrow> [] | Some rs \<Rightarrow> typedList recordType rs))"

definition matchingWildcards :: "DNSRecordStore \<Rightarrow> string \<Rightarrow> (string \<times> recordSet) list" where
  "matchingWildcards s domain =
     filter (\<lambda>(pattern, rs). matchWildcard pattern (ToLower (Fqdn domain))) (wildcards s)"

text \<open>The record set stored at a label path, and the record set after one more address.\<close>

definition dataAt :: "domainTrieNode \<Rightarrow> string list \<Rightarrow> recordSet option" where
  "dataAt node path = (case walk node path of None \<Rightarrow> None | Some n \<Rightarrow> data n)"

definition appendIP :: "bool \<Rightarrow> IP \<Rightarrow> recordSet option \<Rightarrow> recordSet" where
  "appendIP isV4 ip d =
     (let rs = (case d of None \<Rightarrow> \<lparr>A = [], AAAA = []\<rparr> | Some rs \<Rightarrow> rs)
      in if isV4 then rs\<lparr>A := A rs @ [ip]\<rparr> else rs\<lparr>AAAA := AAAA rs @ [ip]\<rparr>)"

text \<open>Bytes that lower-casing keeps, and the text of two bytes as one group of four
  hexadecimal digits.\<close>

definition lowerSafe :: "char \<Rightarrow> bool" where
  "lowerSafe c = ((of_char c :: nat) < 65 \<or> 90 < (of_char c :: nat))"

definition hexPair :: "8 word \<Rightarrow> 8 word \<Rightarrow> string" where
  "hexPair x y = [hexDigit (unat x div 16), hexDigit (unat x mod 16),
                  hexDigit (unat y div 16), hexDigit (unat y mod 16)]"

text \<open>The store after a call of \<^verbatim>\<open>AddRecord\<close>: a call that fails returns before it changes
  anything.\<close>

definition afterAddRecord :: "DNSRecordStore \<Rightarrow> string \<Rightarrow> IP \<Rightarrow> DNSRecordStore" where
  "afterAddRecord s domain ip = (case AddRecord s domain ip of Inl e \<Rightarrow> s | Inr s' \<Rightarrow> s')"

text \<open>A valid address has a 4-byte or a 16-byte form (the check of \<^verbatim>\<open>AddRecord\<close>). A
  label that is one hexadecimal digit.\<close>

definition validIP :: "IP \<Rightarrow> bool" where
  "validIP ip = (To4 ip \<noteq> None \<or> To16 ip \<noteq> None)"

definition nibbleLabel :: "string \<Rightarrow> bool" where
  "nibbleLabel l = (length l = 1 \<and> hexVal (hd l) \<noteq> None)"


text \<open>The stores of two scenarios of the specification: a wildcard entry beside an exact
  name, and a name with an IPv6 address only.\<close>

definition scenarioS1 :: DNSRecordStore where
  "scenarioS1 =
     afterAddRecord (afterAddRecord NewDNSRecordStore ''*.autoco.internal'' [10, 0, 0, 1])
       ''exact.autoco.internal'' [10, 0, 0, 2]"


text \<open>
  The state invariants of the specification: no record set of the trie has two empty lists;
  every node below the root has children or a non-empty record set; every wildcard entry holds
  an address.
\<close>

definition nonEmptyRecordSet :: "recordSet option \<Rightarrow> bool" where
  "nonEmptyRecordSet d = (case d of None \<Rightarrow> False | Some rs \<Rightarrow> A rs \<noteq> [] \<or> AAAA rs \<noteq> [])"

fun recordSetsNonEmpty :: "domainTrieNode \<Rightarrow> bool" where
  "recordSetsNonEmpty (TrieNode cs d) =
     ((d = None \<or> nonEmptyRecordSet d) \<and> list_all (\<lambda>lc. recordSetsNonEmpty (snd lc)) cs)"

definition usefulNode :: "domainTrieNode \<Rightarrow> bool" where
  "usefulNode n = (children n \<noteq> [] \<or> nonEmptyRecordSet (data n))"

fun nodesUseful :: "domainTrieNode \<Rightarrow> bool" where
  "nodesUseful (TrieNode cs d) =
     list_all (\<lambda>lc. usefulNode (snd lc) \<and> nodesUseful (snd lc)) cs"

definition wildcardsNonEmpty :: "DNSRecordStore \<Rightarrow> bool" where
  "wildcardsNonEmpty s = list_all (\<lambda>(p, rs). A rs \<noteq> [] \<or> AAAA rs \<noteq> []) (wildcards s)"

definition invariants :: "DNSRecordStore \<Rightarrow> bool" where
  "invariants s =
     (nodesUseful (root s) \<and> recordSetsNonEmpty (root s) \<and> wildcardsNonEmpty s)"

text \<open>A decimal digit or a lower-case hexadecimal letter.\<close>

definition hexChar :: "char \<Rightarrow> bool" where
  "hexChar c = ((48 \<le> (of_char c :: nat) \<and> (of_char c :: nat) \<le> 57)
                \<or> (97 \<le> (of_char c :: nat) \<and> (of_char c :: nat) \<le> 102))"

section \<open>Runs of operations on both stores\<close>

text \<open>
  One call of a mutator of the store. Both implementations offer the same five mutators; a
  sequence of calls is run on the empty store of each. An \<^verbatim>\<open>AddRecord\<close> that returns an
  error leaves the store as it was.
\<close>

datatype storeOp =
  OpAddRecord string IP
| OpAddPTRRecord IP string
| OpRemoveRecord string "IP option"
| OpRemovePTRRecord IP
| OpClear

definition flatAfterAddRecord :: "FlatStore \<Rightarrow> string \<Rightarrow> IP \<Rightarrow> FlatStore" where
  "flatAfterAddRecord s domain ip =
     (case flatAddRecord s domain ip of Inl e \<Rightarrow> s | Inr s' \<Rightarrow> s')"

fun applyOp :: "DNSRecordStore \<Rightarrow> storeOp \<Rightarrow> DNSRecordStore" where
  "applyOp s (OpAddRecord domain ip) = afterAddRecord s domain ip"
| "applyOp s (OpAddPTRRecord ip domain) = AddPTRRecord s ip domain"
| "applyOp s (OpRemoveRecord domain ipOpt) = RemoveRecord s domain ipOpt"
| "applyOp s (OpRemovePTRRecord ip) = RemovePTRRecord s ip"
| "applyOp s OpClear = Clear s"

fun flatApplyOp :: "FlatStore \<Rightarrow> storeOp \<Rightarrow> FlatStore" where
  "flatApplyOp s (OpAddRecord domain ip) = flatAfterAddRecord s domain ip"
| "flatApplyOp s (OpAddPTRRecord ip domain) = flatAddPTRRecord s ip domain"
| "flatApplyOp s (OpRemoveRecord domain ipOpt) = flatRemoveRecord s domain ipOpt"
| "flatApplyOp s (OpRemovePTRRecord ip) = flatRemovePTRRecord s ip"
| "flatApplyOp s OpClear = flatClear s"

definition runOps :: "storeOp list \<Rightarrow> DNSRecordStore" where
  "runOps ops = foldl applyOp NewDNSRecordStore ops"

definition flatRunOps :: "storeOp list \<Rightarrow> FlatStore" where
  "flatRunOps ops = foldl flatApplyOp flatNewDNSRecordStore ops"

fun isAddPTRRecord :: "storeOp \<Rightarrow> bool" where
  "isAddPTRRecord (OpAddPTRRecord ip domain) = True"
| "isAddPTRRecord other = False"

text \<open>
  The relation between a trie store and a flat store that hold the same records. A flat map
  has a key exactly for the non-empty lists: \<open>listA\<close> and \<open>listAAAA\<close> read the two lists
  of an optional record set that way. \<open>trieRS\<close> is the record set of the trie at a
  normalized name.
\<close>

definition nonEmptyList :: "IP list \<Rightarrow> IP list option" where
  "nonEmptyList l = (if l = [] then None else Some l)"

definition listA :: "recordSet option \<Rightarrow> IP list option" where
  "listA d = (case d of None \<Rightarrow> None | Some rs \<Rightarrow> nonEmptyList (A rs))"

definition listAAAA :: "recordSet option \<Rightarrow> IP list option" where
  "listAAAA d = (case d of None \<Rightarrow> None | Some rs \<Rightarrow> nonEmptyList (AAAA rs))"

definition trieRS :: "DNSRecordStore \<Rightarrow> string \<Rightarrow> recordSet option" where
  "trieRS t n = dataAt (root t) (domainToPath n)"

text \<open>A record set as \<^verbatim>\<open>AddRecord\<close> builds it: not empty, 4-byte-convertible addresses in
  \<^verbatim>\<open>A\<close>, all others, of 16 bytes, in \<^verbatim>\<open>AAAA\<close>.\<close>

definition goodRS :: "recordSet \<Rightarrow> bool" where
  "goodRS rs =
     ((A rs \<noteq> [] \<or> AAAA rs \<noteq> [])
      \<and> list_all (\<lambda>ip. To4 ip \<noteq> None) (A rs)
      \<and> list_all (\<lambda>ip. To4 ip = None \<and> length ip = 16) (AAAA rs))"

definition relExact :: "DNSRecordStore \<Rightarrow> FlatStore \<Rightarrow> bool" where
  "relExact t f =
     (\<forall>d. aRecords f (normalizeDomain d) = listA (trieRS t (normalizeDomain d))
          \<and> aaaaRecords f (normalizeDomain d) = listAAAA (trieRS t (normalizeDomain d)))"

definition relWild :: "DNSRecordStore \<Rightarrow> FlatStore \<Rightarrow> bool" where
  "relWild t f =
     ((\<forall>p. map_of (aWildcards f) p = listA (map_of (wildcards t) p)
           \<and> map_of (aaaaWildcards f) p = listAAAA (map_of (wildcards t) p))
      \<and> distinct (map fst (wildcards t)) \<and> distinct (map fst (aWildcards f))
      \<and> distinct (map fst (aaaaWildcards f)))"

definition invGood :: "DNSRecordStore \<Rightarrow> bool" where
  "invGood t =
     ((\<forall>d rs. trieRS t (normalizeDomain d) = Some rs \<longrightarrow> goodRS rs)
      \<and> (\<forall>p rs. map_of (wildcards t) p = Some rs \<longrightarrow> goodRS rs))"

text \<open>Without \<^verbatim>\<open>AddPTRRecord\<close>, a PTR entry points to a name that holds the address.\<close>

definition invPtr :: "DNSRecordStore \<Rightarrow> bool" where
  "invPtr t =
     (\<forall>k n. ptrRecords t k = Some n \<longrightarrow>
        (\<exists>d rs ip. n = normalizeDomain d \<and> trieRS t n = Some rs
                   \<and> (ip \<in> set (A rs) \<or> ip \<in> set (AAAA rs)) \<and> IPString ip = k))"

definition simRel :: "DNSRecordStore \<Rightarrow> FlatStore \<Rightarrow> bool" where
  "simRel t f =
     (relExact t f \<and> relWild t f \<and> flatPtrRecords f = ptrRecords t \<and> invGood t \<and> invPtr t)"

text \<open>The record set that \<^verbatim>\<open>RemoveRecord\<close> with an address leaves: the address is removed
  from the list of its family, and the record set is dropped when both lists are empty.\<close>

definition remData :: "recordSet option \<Rightarrow> IP \<Rightarrow> recordSet option" where
  "remData d ip =
     (case d of
        None \<Rightarrow> None
      | Some rs \<Rightarrow>
          (let rs' = (if To4 ip \<noteq> None then rs\<lparr>A := removeIP (A rs) ip\<rparr>
                      else rs\<lparr>AAAA := removeIP (AAAA rs) ip\<rparr>)
           in if length (A rs') = 0 \<and> length (AAAA rs') = 0 then None else Some rs'))"

text \<open>The wildcard entries of the trie store with a non-empty list of one family, as the flat
  store keeps them; the flat map and the flat wildcard list of a record type.\<close>

definition projA :: "(string \<times> recordSet) list \<Rightarrow> (string \<times> IP list) list" where
  "projA ws = map (\<lambda>(p, rs). (p, A rs)) (filter (\<lambda>(p, rs). A rs \<noteq> []) ws)"

definition projAAAA :: "(string \<times> recordSet) list \<Rightarrow> (string \<times> IP list) list" where
  "projAAAA ws = map (\<lambda>(p, rs). (p, AAAA rs)) (filter (\<lambda>(p, rs). AAAA rs \<noteq> []) ws)"

definition projWild :: "RecordType \<Rightarrow> (string \<times> recordSet) list \<Rightarrow> (string \<times> IP list) list" where
  "projWild q ws =
     map (\<lambda>(p, rs). (p, typedList q rs)) (filter (\<lambda>(p, rs). typedList q rs \<noteq> []) ws)"

definition flatExact :: "FlatStore \<Rightarrow> RecordType \<Rightarrow> string \<rightharpoonup> IP list" where
  "flatExact f q = (if q = RecordTypeA then aRecords f else aaaaRecords f)"

definition flatWild :: "FlatStore \<Rightarrow> RecordType \<Rightarrow> (string \<times> IP list) list" where
  "flatWild f q = (if q = RecordTypeA then aWildcards f else aaaaWildcards f)"

text \<open>The names of a call are of ASCII bytes.\<close>

fun asciiOp :: "storeOp \<Rightarrow> bool" where
  "asciiOp (OpAddRecord domain ip) = isASCII domain"
| "asciiOp (OpAddPTRRecord ip domain) = isASCII domain"
| "asciiOp (OpRemoveRecord domain ipOpt) = isASCII domain"
| "asciiOp (OpRemovePTRRecord ip) = True"
| "asciiOp OpClear = True"

section \<open>Strings and names: properties\<close>

lemma of_char_toLowerChar:
  "(of_char (toLowerChar c) :: nat) =
     (if 65 \<le> (of_char c :: nat) \<and> (of_char c :: nat) \<le> 90 then of_char c + 32 else of_char c)"
  by (simp add: toLowerChar_def Let_def)

lemma toLowerChar_eq_special:
  assumes "(of_char x :: nat) < 65 \<or> (90 < (of_char x :: nat) \<and> (of_char x :: nat) < 97) \<or> 122 < (of_char x :: nat)"
  shows "toLowerChar c = x \<longleftrightarrow> c = x"
proof -
  have "toLowerChar c = x \<longleftrightarrow> (of_char (toLowerChar c) :: nat) = of_char x"
    by (metis of_char_eq_iff)
  also have "\<dots> \<longleftrightarrow> (of_char c :: nat) = of_char x"
    using assms unfolding of_char_toLowerChar by auto
  also have "\<dots> \<longleftrightarrow> c = x" by (metis of_char_eq_iff)
  finally show ?thesis .
qed

lemma toLowerChar_dot [simp]: "toLowerChar c = CHR ''.'' \<longleftrightarrow> c = CHR ''.''"
  by (rule toLowerChar_eq_special) simp

lemma toLowerChar_backslash [simp]: "toLowerChar c = backslash \<longleftrightarrow> c = backslash"
  unfolding backslash_def by (rule toLowerChar_eq_special) simp

lemma toLowerChar_star [simp]: "toLowerChar c = CHR ''*'' \<longleftrightarrow> c = CHR ''*''"
  by (rule toLowerChar_eq_special) simp

lemma toLowerChar_qmark [simp]: "toLowerChar c = CHR ''?'' \<longleftrightarrow> c = CHR ''?''"
  by (rule toLowerChar_eq_special) simp

lemma toLowerChar_idem [simp]: "toLowerChar (toLowerChar c) = toLowerChar c"
proof -
  have "(of_char (toLowerChar (toLowerChar c)) :: nat) = of_char (toLowerChar c)"
    unfolding of_char_toLowerChar by auto
  then show ?thesis by (metis of_char_eq_iff)
qed

lemma ToLower_idem [simp]: "ToLower (ToLower s) = ToLower s"
  by (simp add: ToLower_def)

lemma ToLower_Nil [simp]: "ToLower s = [] \<longleftrightarrow> s = []"
  by (simp add: ToLower_def)

lemma ToLower_append [simp]: "ToLower (s @ t) = ToLower s @ ToLower t"
  by (simp add: ToLower_def)

lemma length_ToLower [simp]: "length (ToLower s) = length s"
  by (simp add: ToLower_def)

lemma last_ToLower_dot: "s \<noteq> [] \<Longrightarrow> last (ToLower s) = CHR ''.'' \<longleftrightarrow> last s = CHR ''.''"
  by (simp add: ToLower_def last_map)

lemma takeWhile_backslash_ToLower:
  "length (takeWhile (\<lambda>c. c = backslash) (map toLowerChar xs))
   = length (takeWhile (\<lambda>c. c = backslash) xs)"
  by (induction xs) auto

lemma IsFqdn_ToLower [simp]: "IsFqdn (ToLower s) = IsFqdn s"
proof (cases "s = []")
  case True
  then show ?thesis by (simp add: IsFqdn_def ToLower_def)
next
  case False
  have "rev (butlast (map toLowerChar s)) = map toLowerChar (rev (butlast s))"
    by (simp add: map_butlast [symmetric] rev_map)
  then show ?thesis
    using False last_ToLower_dot [OF False]
    by (simp add: IsFqdn_def ToLower_def takeWhile_backslash_ToLower)
qed

lemma Fqdn_ends_dot: "Fqdn s \<noteq> [] \<and> last (Fqdn s) = CHR ''.''"
  by (auto simp: Fqdn_def IsFqdn_def split: if_splits)

lemma IsFqdn_append_dot_dot: "s \<noteq> [] \<Longrightarrow> last s = CHR ''.'' \<Longrightarrow> IsFqdn (s @ ''.'')"
  by (cases s rule: rev_cases) (auto simp: IsFqdn_def backslash_def butlast_append)

lemma IsFqdn_normalizeDomain: "IsFqdn (normalizeDomain d)"
proof -
  define d' where "d' = (if length d = 0 \<or> last d \<noteq> CHR ''.'' then d @ ''.'' else d)"
  have d': "d' \<noteq> []" "last d' = CHR ''.''" by (auto simp: d'_def)
  have "IsFqdn (Fqdn d')"
    using IsFqdn_append_dot_dot [OF d'] by (simp add: Fqdn_def)
  then show ?thesis by (simp add: normalizeDomain_def d'_def)
qed

lemma ToLower_normalizeDomain [simp]: "ToLower (normalizeDomain d) = normalizeDomain d"
  by (simp add: normalizeDomain_def)

lemma Fqdn_normalizeDomain [simp]: "Fqdn (normalizeDomain d) = normalizeDomain d"
  using IsFqdn_normalizeDomain by (simp add: Fqdn_def)

lemma normalizeDomain_ends_dot:
  "normalizeDomain d \<noteq> [] \<and> last (normalizeDomain d) = CHR ''.''"
  using IsFqdn_normalizeDomain [of d] by (auto simp: IsFqdn_def split: if_splits)

lemma Split_not_Nil [simp]: "Split s c \<noteq> []"
  by (induction s) (auto split: list.splits)

lemma Join_Split: "Join (Split s c) [c] = s"
proof (induction s)
  case Nil
  then show ?case by simp
next
  case (Cons x xs)
  show ?case
  proof (cases "x = c")
    case True
    obtain f fs where "Split xs c = f # fs" using Split_not_Nil by (cases "Split xs c") auto
    then show ?thesis using Cons True by simp
  next
    case False
    obtain f fs where s: "Split xs c = f # fs" using Split_not_Nil by (cases "Split xs c") auto
    then show ?thesis using Cons False by (cases fs) auto
  qed
qed

lemma Split_inj: "Split s c = Split t c \<Longrightarrow> s = t"
  by (metis Join_Split)

lemma TrimSuffix_dot: "s \<noteq> [] \<Longrightarrow> last s = CHR ''.'' \<Longrightarrow> TrimSuffix s ''.'' = butlast s"
  by (cases s rule: rev_cases) (auto simp: TrimSuffix_def HasSuffix_def)

lemma domainToPath_normalizeDomain:
  "domainToPath (normalizeDomain d) =
     (if butlast (normalizeDomain d) = [] then []
      else rev (Split (butlast (normalizeDomain d)) (CHR ''.'')))"
  using normalizeDomain_ends_dot [of d]
  by (simp add: domainToPath_def TrimSuffix_dot)

lemma domainToPath_inj:
  assumes "domainToPath (normalizeDomain d1) = domainToPath (normalizeDomain d2)"
  shows "normalizeDomain d1 = normalizeDomain d2"
proof -
  let ?n1 = "normalizeDomain d1" and ?n2 = "normalizeDomain d2"
  have e1: "?n1 = butlast ?n1 @ ''.''" using normalizeDomain_ends_dot [of d1]
    by (metis append_butlast_last_id)
  have e2: "?n2 = butlast ?n2 @ ''.''" using normalizeDomain_ends_dot [of d2]
    by (metis append_butlast_last_id)
  have "butlast ?n1 = butlast ?n2"
    using assms unfolding domainToPath_normalizeDomain
    by (auto split: if_splits dest: Split_inj)
  then show ?thesis using e1 e2 by metis
qed

subsection \<open>Text without upper-case letters and separators\<close>

lemma toLowerChar_lowerSafe: "lowerSafe c \<Longrightarrow> toLowerChar c = c"
  by (auto simp: lowerSafe_def toLowerChar_def Let_def)

lemma ToLower_lowerSafe: "list_all lowerSafe s \<Longrightarrow> ToLower s = s"
  by (induction s) (auto simp: ToLower_def toLowerChar_lowerSafe)

lemma of_char_digitChar: "n < 10 \<Longrightarrow> (of_char (digitChar n) :: nat) = 48 + n"
  by (simp add: digitChar_def)

lemma of_char_hexDigit:
  "n < 16 \<Longrightarrow> (of_char (hexDigit n) :: nat) = (if n < 10 then 48 + n else 87 + n)"
  by (simp add: hexDigit_def)

lemma char_neq_by_code: "(of_char c :: nat) \<noteq> of_char d \<Longrightarrow> c \<noteq> d"
  by auto

lemma digitChar_props:
  assumes "n < 10"
  shows "lowerSafe (digitChar n)" "isDigit (digitChar n)" "digitVal (digitChar n) = n"
    "digitChar n \<noteq> CHR ''.''" "digitChar n \<noteq> CHR '':''" "digitChar n \<noteq> CHR ''%''"
  using assms
  by (auto simp: lowerSafe_def isDigit_def digitVal_def of_char_digitChar
      intro!: char_neq_by_code)

lemma hexDigit_props:
  assumes "n < 16"
  shows "lowerSafe (hexDigit n)" "hexVal (hexDigit n) = Some n"
    "hexDigit n \<noteq> CHR ''.''" "hexDigit n \<noteq> CHR '':''" "hexDigit n \<noteq> CHR ''%''"
  using assms
  by (auto simp: lowerSafe_def hexVal_def Let_def of_char_hexDigit
      intro!: char_neq_by_code split: if_splits)

lemma fmtDec_cases:
  assumes "n < 256"
  shows "(n < 10 \<and> fmtDec n = [digitChar n])
       \<or> (10 \<le> n \<and> n < 100 \<and> fmtDec n = [digitChar (n div 10), digitChar (n mod 10)])
       \<or> (100 \<le> n \<and> fmtDec n = [digitChar (n div 100), digitChar (n div 10 mod 10), digitChar (n mod 10)])"
proof -
  have one: "fmtDec k = [digitChar k]" if "k < 10" for k
    using that by (subst fmtDec.simps) simp
  have two: "fmtDec k = [digitChar (k div 10), digitChar (k mod 10)]" if "10 \<le> k" "k < 100" for k
  proof -
    have "k div 10 < 10" using that by simp
    then show ?thesis using that one [of "k div 10"] by (subst fmtDec.simps) simp
  qed
  have three: "fmtDec n = [digitChar (n div 100), digitChar (n div 10 mod 10), digitChar (n mod 10)]"
    if "100 \<le> n"
  proof -
    have "10 \<le> n div 10" "n div 10 < 100" using that assms by simp_all
    then have "fmtDec (n div 10) = [digitChar (n div 10 div 10), digitChar (n div 10 mod 10)]"
      by (rule two)
    moreover have "n div 10 div 10 = n div 100" by (simp add: div_mult2_eq)
    ultimately show ?thesis using that by (subst fmtDec.simps) simp
  qed
  show ?thesis using one [of n] two [of n] three by linarith
qed

lemma fmtDec_chars:
  assumes "n < 256"
  shows "fmtDec n \<noteq> []" "list_all lowerSafe (fmtDec n)" "CHR ''.'' \<notin> set (fmtDec n)"
    "CHR '':'' \<notin> set (fmtDec n)" "CHR ''%'' \<notin> set (fmtDec n)"
proof -
  have d: "n div 100 < 10" "n div 10 mod 10 < 10" "n mod 10 < 10" using assms by simp_all
  have d2: "n < 100 \<Longrightarrow> n div 10 < 10" by simp
  from fmtDec_cases [OF assms]
  show "fmtDec n \<noteq> []" by auto
  from fmtDec_cases [OF assms] d d2
  show "list_all lowerSafe (fmtDec n)" by (auto simp: digitChar_props)
  from fmtDec_cases [OF assms] d d2
  show "CHR ''.'' \<notin> set (fmtDec n)" by (metis digitChar_props(4) empty_iff empty_set set_ConsD)
  from fmtDec_cases [OF assms] d d2
  show "CHR '':'' \<notin> set (fmtDec n)" by (metis digitChar_props(5) empty_iff empty_set set_ConsD)
  from fmtDec_cases [OF assms] d d2
  show "CHR ''%'' \<notin> set (fmtDec n)" by (metis digitChar_props(6) empty_iff empty_set set_ConsD)
qed

lemma parseIPv4Fields_digit:
  assumes "m < 10" and "\<not> (k = Suc 0 \<and> v = 0)" and "v * 10 + m \<le> 255"
  shows "parseIPv4Fields (digitChar m # cs) prev v k fs
         = parseIPv4Fields cs (Some (digitChar m)) (v * 10 + m) (Suc k) fs"
  using assms by (auto simp: digitChar_props)

lemma parseIPv4Fields_fmtDec:
  assumes "n < 256"
  shows "\<exists>c k. c \<noteq> CHR ''.'' \<and>
           parseIPv4Fields (fmtDec n @ rest) prev 0 0 fs
           = parseIPv4Fields rest (Some c) n k fs"
proof -
  have d: "n div 100 < 10" "n div 10 mod 10 < 10" "n mod 10 < 10" using assms by simp_all
  have "n div 100 = n div 10 div 10" by (simp add: div_mult2_eq)
  then have a1: "n div 100 * 10 + n div 10 mod 10 = n div 10" by simp
  have a2: "n div 10 * 10 + n mod 10 = n" by simp
  have le: "n div 10 \<le> 255" "n \<le> 255" using assms by simp_all
  from fmtDec_cases [OF assms]
  consider (one) "n < 10" "fmtDec n = [digitChar n]"
    | (two) "10 \<le> n" "n < 100" "fmtDec n = [digitChar (n div 10), digitChar (n mod 10)]"
    | (three) "100 \<le> n"
      "fmtDec n = [digitChar (n div 100), digitChar (n div 10 mod 10), digitChar (n mod 10)]"
    by blast
  then show ?thesis
  proof cases
    case one
    have "parseIPv4Fields (fmtDec n @ rest) prev 0 0 fs
          = parseIPv4Fields rest (Some (digitChar n)) n (Suc 0) fs"
      using parseIPv4Fields_digit [of n 0 0 rest prev fs] one le
      by (simp del: parseIPv4Fields.simps)
    then show ?thesis using digitChar_props(4) [OF one(1)] by blast
  next
    case two
    then have t: "n div 10 < 10" "n div 10 \<noteq> 0" by simp_all
    have "parseIPv4Fields (fmtDec n @ rest) prev 0 0 fs
          = parseIPv4Fields (digitChar (n mod 10) # rest) (Some (digitChar (n div 10))) (n div 10) (Suc 0) fs"
      using parseIPv4Fields_digit [of "n div 10" 0 0 "digitChar (n mod 10) # rest" prev fs] two t le
      by (simp del: parseIPv4Fields.simps)
    also have "\<dots> = parseIPv4Fields rest (Some (digitChar (n mod 10))) n (Suc (Suc 0)) fs"
      using parseIPv4Fields_digit [of "n mod 10" "Suc 0" "n div 10" rest "Some (digitChar (n div 10))" fs]
        d t le a2 by (simp del: parseIPv4Fields.simps)
    finally show ?thesis using digitChar_props(4) [OF d(3)] by blast
  next
    case three
    then have t: "n div 100 \<noteq> 0" by simp
    have "parseIPv4Fields (fmtDec n @ rest) prev 0 0 fs
          = parseIPv4Fields (digitChar (n div 10 mod 10) # digitChar (n mod 10) # rest)
              (Some (digitChar (n div 100))) (n div 100) (Suc 0) fs"
      using parseIPv4Fields_digit
        [of "n div 100" 0 0 "digitChar (n div 10 mod 10) # digitChar (n mod 10) # rest" prev fs]
        three d by (simp del: parseIPv4Fields.simps)
    also have "\<dots> = parseIPv4Fields (digitChar (n mod 10) # rest)
              (Some (digitChar (n div 10 mod 10))) (n div 10) (Suc (Suc 0)) fs"
      using parseIPv4Fields_digit
        [of "n div 10 mod 10" "Suc 0" "n div 100" "digitChar (n mod 10) # rest"
            "Some (digitChar (n div 100))" fs]
        d t le a1 by (simp del: parseIPv4Fields.simps)
    also have "\<dots> = parseIPv4Fields rest (Some (digitChar (n mod 10))) n (Suc (Suc (Suc 0))) fs"
      using parseIPv4Fields_digit
        [of "n mod 10" "Suc (Suc 0)" "n div 10" rest "Some (digitChar (n div 10 mod 10))" fs]
        d le a2 by (simp del: parseIPv4Fields.simps)
    finally show ?thesis using digitChar_props(4) [OF d(3)] by blast
  qed
qed

lemma parseIPv4Fields_dot:
  assumes "x \<noteq> CHR ''.''" "r \<noteq> []" "length fs < 3"
  shows "parseIPv4Fields (CHR ''.'' # r) (Some x) v k fs
         = parseIPv4Fields r (Some (CHR ''.'')) 0 0 (fs @ [of_nat v])"
  using assms by (simp add: isDigit_def)

lemma parseIPv4_dotted:
  assumes "a < 256" "b < 256" "c < 256" "d < 256"
  shows "parseIPv4 (fmtDec a @ ''.'' @ fmtDec b @ ''.'' @ fmtDec c @ ''.'' @ fmtDec d)
         = Some [of_nat a, of_nat b, of_nat c, of_nat d]"
proof -
  have ne: "fmtDec b @ r \<noteq> []" "fmtDec c @ r \<noteq> []" "fmtDec d \<noteq> []" for r
    using fmtDec_chars(1) assms by simp_all
  let ?r3 = "fmtDec d"
  let ?r2 = "fmtDec c @ CHR ''.'' # ?r3"
  let ?r1 = "fmtDec b @ CHR ''.'' # ?r2"
  obtain c1 k1 where 1: "c1 \<noteq> CHR ''.''"
    "parseIPv4Fields (fmtDec a @ CHR ''.'' # ?r1) None 0 0 []
       = parseIPv4Fields (CHR ''.'' # ?r1) (Some c1) a k1 []"
    using parseIPv4Fields_fmtDec [OF assms(1), of "CHR ''.'' # ?r1" None "[]"] by auto
  obtain c2 k2 where 2: "c2 \<noteq> CHR ''.''"
    "parseIPv4Fields (fmtDec b @ CHR ''.'' # ?r2) (Some (CHR ''.'')) 0 0 [of_nat a]
       = parseIPv4Fields (CHR ''.'' # ?r2) (Some c2) b k2 [of_nat a]"
    using parseIPv4Fields_fmtDec [OF assms(2), of "CHR ''.'' # ?r2" "Some (CHR ''.'')" "[of_nat a]"]
    by auto
  obtain c3 k3 where 3: "c3 \<noteq> CHR ''.''"
    "parseIPv4Fields (fmtDec c @ CHR ''.'' # ?r3) (Some (CHR ''.'')) 0 0 [of_nat a, of_nat b]
       = parseIPv4Fields (CHR ''.'' # ?r3) (Some c3) c k3 [of_nat a, of_nat b]"
    using parseIPv4Fields_fmtDec [OF assms(3), of "CHR ''.'' # ?r3" "Some (CHR ''.'')"
        "[of_nat a, of_nat b]"]
    by auto
  obtain c4 k4 where 4: "c4 \<noteq> CHR ''.''"
    "parseIPv4Fields (fmtDec d @ []) (Some (CHR ''.'')) 0 0 [of_nat a, of_nat b, of_nat c]
       = parseIPv4Fields [] (Some c4) d k4 [of_nat a, of_nat b, of_nat c]"
    using parseIPv4Fields_fmtDec [OF assms(4), of "[]" "Some (CHR ''.'')"
        "[of_nat a, of_nat b, of_nat c]"]
    by auto
  have "parseIPv4 (fmtDec a @ CHR ''.'' # ?r1) = parseIPv4Fields (CHR ''.'' # ?r1) (Some c1) a k1 []"
    unfolding parseIPv4_def using 1(2) .
  also have "\<dots> = parseIPv4Fields ?r1 (Some (CHR ''.'')) 0 0 [of_nat a]"
    using parseIPv4Fields_dot [OF 1(1) ne(1), of "[]"] by simp
  also have "\<dots> = parseIPv4Fields (CHR ''.'' # ?r2) (Some c2) b k2 [of_nat a]"
    using 2(2) .
  also have "\<dots> = parseIPv4Fields ?r2 (Some (CHR ''.'')) 0 0 [of_nat a, of_nat b]"
    using parseIPv4Fields_dot [OF 2(1) ne(2), of "[of_nat a]"] by simp
  also have "\<dots> = parseIPv4Fields (CHR ''.'' # ?r3) (Some c3) c k3 [of_nat a, of_nat b]"
    using 3(2) .
  also have "\<dots> = parseIPv4Fields ?r3 (Some (CHR ''.'')) 0 0 [of_nat a, of_nat b, of_nat c]"
    using parseIPv4Fields_dot [OF 3(1) ne(3), of "[of_nat a, of_nat b]"] by simp
  also have "\<dots> = parseIPv4Fields [] (Some c4) d k4 [of_nat a, of_nat b, of_nat c]"
    using 4(2) by simp
  also have "\<dots> = Some [of_nat a, of_nat b, of_nat c, of_nat d]"
    by simp
  finally show ?thesis by simp
qed

lemma IsFqdn_snoc_not_dot: "c \<noteq> CHR ''.'' \<Longrightarrow> \<not> IsFqdn (s @ [c])"
  by (simp add: IsFqdn_def)

lemma IsFqdn_snoc_dot: "c \<noteq> backslash \<Longrightarrow> IsFqdn (s @ [c, CHR ''.''])"
  by (simp add: IsFqdn_def butlast_append)

lemma HasSuffix_append [simp]: "HasSuffix (x @ suf) suf"
  by (simp add: HasSuffix_def)

lemma TrimSuffix_append [simp]: "TrimSuffix (x @ suf) suf = x"
  by (simp add: TrimSuffix_def)

lemma HasSuffix_appendD:
  assumes "HasSuffix (y @ t) suf" and "length t \<le> length suf"
  shows "drop (length suf - length t) suf = t"
proof -
  from assms(1) have "drop (length (y @ t) - length suf) (y @ t) = suf"
    and le: "length suf \<le> length (y @ t)"
    by (simp_all add: HasSuffix_def)
  then have "drop (length suf - length t) suf
             = drop (length suf - length t + (length (y @ t) - length suf)) (y @ t)"
    by (metis drop_drop)
  also have "\<dots> = drop (length y) (y @ t)"
    using le assms(2) by simp
  finally show ?thesis by simp
qed

lemma Split_no_sep: "c \<notin> set x \<Longrightarrow> Split x c = [x]"
  by (induction x) auto

lemma Split_append_sep: "c \<notin> set x \<Longrightarrow> Split (x @ c # r) c = x # Split r c"
  by (induction x) auto

lemma Split_Join:
  assumes "xs \<noteq> []" and "\<forall>x\<in>set xs. c \<notin> set x"
  shows "Split (Join xs [c]) c = xs"
  using assms
proof (induction xs "[c]" rule: Join.induct)
  case 1
  then show ?case by simp
next
  case (2 x)
  then show ?case by (simp add: Split_no_sep)
next
  case (3 x y ys)
  then show ?case by (simp add: Split_append_sep)
qed

lemma find_first_sep:
  assumes "\<forall>ch\<in>set x. \<not> P ch" and "P c"
  shows "find P (x @ c # r) = Some c"
  using assms by (induction x) auto

lemma reverseDNSToIP_in_addr:
  assumes "a < 256" "b < 256" "c < 256" "d < 256"
  shows "reverseDNSToIP (Fqdn (fmtDec d @ ''.'' @ fmtDec c @ ''.'' @ fmtDec b @ ''.''
                               @ fmtDec a @ ''.in-addr.arpa''))
         = Some (v4InV6Prefix @ [of_nat a, of_nat b, of_nat c, of_nat d])"
proof -
  let ?x = "fmtDec d @ ''.'' @ fmtDec c @ ''.'' @ fmtDec b @ ''.'' @ fmtDec a"
  have f1: "Fqdn (?x @ ''.in-addr.arpa'') = ?x @ ''.in-addr.arpa.''"
    by (simp add: Fqdn_def IsFqdn_def)
  have f2: "Fqdn (?x @ ''.in-addr.arpa.'') = ?x @ ''.in-addr.arpa.''"
    by (simp add: Fqdn_def IsFqdn_def butlast_append backslash_def)
  have low: "ToLower (?x @ ''.in-addr.arpa.'') = ?x @ ''.in-addr.arpa.''"
    by (rule ToLower_lowerSafe) (simp add: fmtDec_chars assms, simp add: lowerSafe_def)
  have sp: "Split ?x (CHR ''.'') = [fmtDec d, fmtDec c, fmtDec b, fmtDec a]"
    using fmtDec_chars(3) assms by (simp add: Split_append_sep Split_no_sep)
  have fnd: "find (\<lambda>ch. ch = CHR ''.'' \<or> ch = CHR '':'' \<or> ch = CHR ''%'')
               (fmtDec a @ CHR ''.'' # r) = Some (CHR ''.'')" for r
    by (rule find_first_sep) (use fmtDec_chars [OF assms(1)] in auto)
  have rv: "map (\<lambda>i. [fmtDec d, fmtDec c, fmtDec b, fmtDec a] ! (3 - i)) [0 ..< 4]
            = [fmtDec a, fmtDec b, fmtDec c, fmtDec d]"
    by (simp add: upt_rec)
  have "reverseDNSToIP (?x @ ''.in-addr.arpa.'')
        = ParseIP (fmtDec a @ ''.'' @ fmtDec b @ ''.'' @ fmtDec c @ ''.'' @ fmtDec d)"
    unfolding reverseDNSToIP_def f2 low Let_def
    using sp rv TrimSuffix_append [of ?x "''.in-addr.arpa.''"] HasSuffix_append [of ?x "''.in-addr.arpa.''"]
    by simp
  also have "\<dots> = Some (v4InV6Prefix @ [of_nat a, of_nat b, of_nat c, of_nat d])"
    unfolding ParseIP_def using fnd parseIPv4_dotted [OF assms] by simp
  finally show ?thesis using f1 by simp
qed

lemma unat_low_nibble: "unat ((b :: 8 word) AND 0x0f) = unat b mod 16"
proof -
  have "(0x0f :: 8 word) = mask 4" by (simp add: mask_eq_exp_minus_1)
  then have "b AND 0x0f = take_bit 4 b" by (simp add: take_bit_eq_mask)
  then show ?thesis by (simp add: unsigned_take_bit_eq take_bit_eq_mod unat_mod)
qed
lemma unat_high_nibble: "unat (drop_bit 4 (b :: 8 word)) = unat b div 16"
  by (simp add: unat_drop_bit_eq drop_bit_eq_div unat_div)
lemma word8_of_pair: "(of_nat (unat (x :: 8 word) * 256 + unat y) :: 8 word) = y"
proof -
  have z: "(256 :: 8 word) = 0" by simp
  have "x * 256 + y = y" unfolding z by simp
  then show ?thesis by simp
qed
lemma unat_lt_256: "unat (b :: 8 word) < 256"
  using unsigned_less [of b] by simp

lemma hexGroup_digit:
  assumes "n < 16" "off \<le> 3" "acc * 16 + n \<le> 65535"
  shows "hexGroup (hexDigit n # cs) off acc = hexGroup cs (Suc off) (acc * 16 + n)"
  using assms by (simp add: hexDigit_props)

lemma hexGroup_stop:
  assumes "r = [] \<or> hexVal (hd r) = None"
  shows "hexGroup r off acc = Some (off, acc, r)"
  using assms by (cases r) auto

lemma hexGroup_hexPair:
  assumes "r = [] \<or> hexVal (hd r) = None"
  shows "hexGroup (hexPair x y @ r) 0 0 = Some (4, unat x * 256 + unat y, r)"
proof -
  have lt: "unat x div 16 < 16" "unat x mod 16 < 16" "unat y div 16 < 16" "unat y mod 16 < 16"
    using unat_lt_256 [of x] unat_lt_256 [of y] by simp_all
  have v1: "(0 * 16 + unat x div 16) * 16 + unat x mod 16 = unat x" by simp
  have v2: "(unat x * 16 + unat y div 16) * 16 + unat y mod 16 = unat x * 256 + unat y" by simp
  have b1: "unat x * 16 + unat y div 16 \<le> 65535" "unat x * 256 + unat y \<le> 65535"
    using unat_lt_256 [of x] unat_lt_256 [of y] by simp_all
  have "hexGroup (hexPair x y @ r) 0 0
        = hexGroup (hexDigit (unat x mod 16) # hexDigit (unat y div 16)
                    # hexDigit (unat y mod 16) # r) (Suc 0) (unat x div 16)"
    unfolding hexPair_def using hexGroup_digit [OF lt(1), of 0 0] lt by simp
  also have "\<dots> = hexGroup (hexDigit (unat y div 16) # hexDigit (unat y mod 16) # r)
                      (Suc (Suc 0)) (unat x)"
    using hexGroup_digit [OF lt(2), of "Suc 0" "unat x div 16"] unat_lt_256 [of x] v1 by simp
  also have "\<dots> = hexGroup (hexDigit (unat y mod 16) # r) (Suc (Suc (Suc 0)))
                      (unat x * 16 + unat y div 16)"
    using hexGroup_digit [OF lt(3), of "Suc (Suc 0)" "unat x"] b1 by simp
  also have "\<dots> = hexGroup r (Suc (Suc (Suc (Suc 0)))) (unat x * 256 + unat y)"
    using hexGroup_digit [OF lt(4), of "Suc (Suc (Suc 0))" "unat x * 16 + unat y div 16"] b1 v2
    by (simp del: hexGroup.simps add: add.commute mult.commute)
  also have "\<dots> = Some (4, unat x * 256 + unat y, r)"
    using hexGroup_stop [OF assms] by (simp add: numeral_eq_Suc)
  finally show ?thesis .
qed

lemma hexPair_chars:
  "hexPair x y \<noteq> []" "hd (hexPair x y) \<noteq> CHR '':''" "list_all lowerSafe (hexPair x y)"
  "CHR ''.'' \<notin> set (hexPair x y)" "CHR '':'' \<notin> set (hexPair x y)"
  "CHR ''%'' \<notin> set (hexPair x y)"
proof -
  have lt: "unat x div 16 < 16" "unat x mod 16 < 16" "unat y div 16 < 16" "unat y mod 16 < 16"
    using unat_lt_256 [of x] unat_lt_256 [of y] by simp_all
  show "hexPair x y \<noteq> []" by (simp add: hexPair_def)
  show "hd (hexPair x y) \<noteq> CHR '':''" using lt by (simp add: hexPair_def hexDigit_props)
  show "list_all lowerSafe (hexPair x y)" using lt by (simp add: hexPair_def hexDigit_props)
  show "CHR ''.'' \<notin> set (hexPair x y)"
    using hexDigit_props(3) [OF lt(1)] hexDigit_props(3) [OF lt(2)]
      hexDigit_props(3) [OF lt(3)] hexDigit_props(3) [OF lt(4)]
    by (simp add: hexPair_def eq_commute)
  show "CHR '':'' \<notin> set (hexPair x y)"
    using hexDigit_props(4) [OF lt(1)] hexDigit_props(4) [OF lt(2)]
      hexDigit_props(4) [OF lt(3)] hexDigit_props(4) [OF lt(4)]
    by (simp add: hexPair_def eq_commute)
  show "CHR ''%'' \<notin> set (hexPair x y)"
    using hexDigit_props(5) [OF lt(1)] hexDigit_props(5) [OF lt(2)]
      hexDigit_props(5) [OF lt(3)] hexDigit_props(5) [OF lt(4)]
    by (simp add: hexPair_def eq_commute)
qed

lemma hexVal_colon: "hexVal (CHR '':'') = None"
  by (simp add: hexVal_def)

lemma Join_Cons2: "ys \<noteq> [] \<Longrightarrow> Join (x # ys) sep = x @ sep @ Join ys sep"
  by (cases ys) auto

lemma Join_hexPair_hd:
  "ps \<noteq> [] \<Longrightarrow> Join (map (\<lambda>(x, y). hexPair x y) ps) '':'' \<noteq> []
     \<and> hd (Join (map (\<lambda>(x, y). hexPair x y) ps) '':'') \<noteq> CHR '':''"
proof (cases ps)
  case Nil
  then show "ps \<noteq> [] \<Longrightarrow> ?thesis" by simp
next
  case (Cons p qs)
  obtain x y where p: "p = (x, y)" by (cases p)
  show "ps \<noteq> [] \<Longrightarrow> ?thesis"
    using hexPair_chars(1,2) [of x y] Cons p by (cases qs) (auto simp: hexPair_def)
qed

lemma parseIPv6Groups_hex:
  assumes "ps \<noteq> []" and "length ip + 2 * length ps \<le> 16"
  shows "parseIPv6Groups (Join (map (\<lambda>(x, y). hexPair x y) ps) '':'') ip e
         = Some ([], ip @ concat (map (\<lambda>(x, y). [x, y]) ps), e)"
  using assms
proof (induction ps arbitrary: ip)
  case Nil
  then show ?case by simp
next
  case (Cons p qs)
  obtain x y where p: "p = (x, y)" by (cases p)
  have len: "\<not> 16 \<le> length ip" using Cons.prems(2) by simp
  have bytes: "[of_nat ((unat x * 256 + unat y) div 256), of_nat (unat x * 256 + unat y)]
               = [x, y]"
    using word8_of_pair [of x y] unat_lt_256 [of y] by simp
  show ?case
  proof (cases "qs = []")
    case True
    have "hexGroup (hexPair x y) 0 0 = Some (4, unat x * 256 + unat y, [])"
      using hexGroup_hexPair [of "[]" x y] by simp
    then show ?thesis
      using True p len bytes
      by (subst parseIPv6Groups.simps) (simp del: of_nat_add of_nat_mult)
  next
    case False
    let ?R = "Join (map (\<lambda>(x, y). hexPair x y) qs) '':''"
    have R: "?R \<noteq> []" "hd ?R \<noteq> CHR '':''" using Join_hexPair_hd [OF False] by simp_all
    have J: "Join (map (\<lambda>(x, y). hexPair x y) (p # qs)) '':'' = hexPair x y @ CHR '':'' # ?R"
      using False p by (simp add: Join_Cons2)
    have g: "hexGroup (hexPair x y @ CHR '':'' # ?R) 0 0
             = Some (4, unat x * 256 + unat y, CHR '':'' # ?R)"
      using hexGroup_hexPair [of "CHR '':'' # ?R" x y] hexVal_colon by simp
    have IH: "parseIPv6Groups ?R (ip @ [x, y]) e
              = Some ([], (ip @ [x, y]) @ concat (map (\<lambda>(x, y). [x, y]) qs), e)"
      using Cons.IH [OF False, of "ip @ [x, y]"] Cons.prems(2) by simp
    show ?thesis
      unfolding J
      using g len bytes R IH p
      by (subst parseIPv6Groups.simps) (simp del: of_nat_add of_nat_mult)
  qed
qed

lemma list16:
  assumes "length (xs :: 'a list) = 16"
  obtains b0 b1 b2 b3 b4 b5 b6 b7 b8 b9 b10 b11 b12 b13 b14 b15
  where "xs = [b0, b1, b2, b3, b4, b5, b6, b7, b8, b9, b10, b11, b12, b13, b14, b15]"
  using assms by (auto simp: length_Suc_conv numeral_eq_Suc)

lemma fmtHex_nibble: "n < 16 \<Longrightarrow> fmtHex n = [hexDigit n]"
  by (subst fmtHex.simps) simp

lemma fmtHex_low: "fmtHex (unat ((b :: 8 word) AND 0x0f)) = [hexDigit (unat b mod 16)]"
  using unat_lt_256 [of b] by (simp add: unat_low_nibble fmtHex_nibble)

lemma fmtHex_high: "fmtHex (unat (drop_bit 4 (b :: 8 word))) = [hexDigit (unat b div 16)]"
  using unat_lt_256 [of b] by (simp add: unat_high_nibble fmtHex_nibble)

lemma hexDigit_nibble_props:
  "lowerSafe (hexDigit (unat (b :: 8 word) mod 16))" "lowerSafe (hexDigit (unat b div 16))"
  "hexDigit (unat b mod 16) \<noteq> CHR ''.''" "hexDigit (unat b div 16) \<noteq> CHR ''.''"
  "CHR ''.'' \<noteq> hexDigit (unat b mod 16)" "CHR ''.'' \<noteq> hexDigit (unat b div 16)"
  using unat_lt_256 [of b] by (simp_all add: hexDigit_props hexDigit_props(3) [symmetric])

lemma not_HasSuffix_ip6: "\<not> HasSuffix (y @ ''.ip6.arpa.'') ''.in-addr.arpa.''"
proof
  assume "HasSuffix (y @ ''.ip6.arpa.'') ''.in-addr.arpa.''"
  from HasSuffix_appendD [OF this] show False by simp
qed

lemma list_all_Join:
  "list_all (list_all P) xs \<Longrightarrow> list_all P sep \<Longrightarrow> list_all P (Join xs sep)"
  by (induction xs sep rule: Join.induct) auto

lemma lowerSafe_dot: "list_all lowerSafe ''.''"
  by (simp add: lowerSafe_def)

lemma set_Join_subset: "set (Join xs sep) \<subseteq> \<Union> (set ` set xs) \<union> set sep"
  by (induction xs sep rule: Join.induct) auto

lemma ParseIP_hexPairs:
  assumes "length ps = 8"
  shows "ParseIP (Join (map (\<lambda>(x, y). hexPair x y) ps) '':'')
         = Some (concat (map (\<lambda>(x, y). [x, y]) ps))"
proof -
  let ?s = "Join (map (\<lambda>(x, y). hexPair x y) ps) '':''"
  from assms obtain p qs where ps: "ps = p # qs" "qs \<noteq> []"
    by (cases ps; cases "tl ps") auto
  obtain x y where p: "p = (x, y)" by (cases p)
  have ne: "ps \<noteq> []" using ps by simp
  have s: "?s = hexPair x y @ CHR '':'' # Join (map (\<lambda>(x, y). hexPair x y) qs) '':''"
    using ps p by (simp add: Join_Cons2)
  have fnd: "find (\<lambda>c. c = CHR ''.'' \<or> c = CHR '':'' \<or> c = CHR ''%'') ?s = Some (CHR '':'')"
    unfolding s by (rule find_first_sep) (use hexPair_chars [of x y] in auto)
  have "set ?s \<subseteq> \<Union> (set ` set (map (\<lambda>(x, y). hexPair x y) ps)) \<union> set '':''"
    by (rule set_Join_subset)
  moreover have "CHR ''%'' \<notin> \<Union> (set ` set (map (\<lambda>(x, y). hexPair x y) ps))"
    using hexPair_chars(6) by auto
  ultimately have nopct: "CHR ''%'' \<notin> set ?s" by auto
  have hd: "?s \<noteq> []" "hd ?s \<noteq> CHR '':''" using Join_hexPair_hd [OF ne] by simp_all
  then have nolead: "?s ! 0 \<noteq> CHR '':''"
    by (simp add: hd_conv_nth)
  have grp: "parseIPv6Groups ?s [] None = Some ([], concat (map (\<lambda>(x, y). [x, y]) ps), None)"
    using parseIPv6Groups_hex [OF ne, of "[]" None] assms by simp
  have len: "length (concat (map (\<lambda>(x, y). [x, y]) ps)) = 16"
    using assms by (simp add: length_concat comp_def case_prod_beta sum_list_triv)
  have "parseIPv6 ?s = Some (concat (map (\<lambda>(x, y). [x, y]) ps))"
    unfolding parseIPv6_def using nopct nolead grp len by (simp add: Let_def)
  then show ?thesis
    unfolding ParseIP_def fnd by (simp add: hexPair_chars)
qed

lemma reverseDNSToIP_ip6_name:
  assumes "list_all lowerSafe x"
  shows "reverseDNSToIP (Fqdn (x @ ''.ip6.arpa'')) =
           (let parts = Split x (CHR ''.'')
            in if length parts \<noteq> 32 then None
               else
                 (let reversed = map (\<lambda>i. parts ! (31 - i)) [0 ..< 32];
                      ipv6Parts =
                        map (\<lambda>k. reversed ! (4 * k) @ reversed ! (4 * k + 1)
                                   @ reversed ! (4 * k + 2) @ reversed ! (4 * k + 3)) [0 ..< 8]
                  in ParseIP (Join ipv6Parts '':'')))"
proof -
  have f1: "Fqdn (x @ ''.ip6.arpa'') = x @ ''.ip6.arpa.''"
    by (simp add: Fqdn_def IsFqdn_def)
  have f2: "Fqdn (x @ ''.ip6.arpa.'') = x @ ''.ip6.arpa.''"
    by (simp add: Fqdn_def IsFqdn_def butlast_append backslash_def)
  have low: "ToLower (x @ ''.ip6.arpa.'') = x @ ''.ip6.arpa.''"
    using ToLower_lowerSafe [OF assms] ToLower_lowerSafe [of "''.ip6.arpa.''"]
    by (simp add: lowerSafe_def)
  show ?thesis
    unfolding f1 reverseDNSToIP_def f2 low
    using not_HasSuffix_ip6 [of x] HasSuffix_append [of x "''.ip6.arpa.''"]
      TrimSuffix_append [of x "''.ip6.arpa.''"]
    by (simp add: Let_def)
qed

lemma reverseDNSToIP_ip6:
  assumes "length ip6 = 16"
  shows "reverseDNSToIP
           (Fqdn (Join (concat (map (\<lambda>i. [fmtHex (unat (ip6 ! i AND 0x0f)),
                                            fmtHex (unat (drop_bit 4 (ip6 ! i)))])
                                     (rev [0 ..< 16]))) ''.'' @ ''.ip6.arpa''))
         = Some ip6"
proof -
  obtain b0 b1 b2 b3 b4 b5 b6 b7 b8 b9 b10 b11 b12 b13 b14 b15
    where ip6: "ip6 = [b0, b1, b2, b3, b4, b5, b6, b7, b8, b9, b10, b11, b12, b13, b14, b15]"
    using list16 [OF assms] by blast
  define L where "L b = [hexDigit (unat b mod 16)]" for b :: "8 word"
  define H where "H b = [hexDigit (unat b div 16)]" for b :: "8 word"
  define nibbles where "nibbles = [L b15, H b15, L b14, H b14, L b13, H b13, L b12, H b12,
                   L b11, H b11, L b10, H b10, L b9, H b9, L b8, H b8, L b7, H b7, L b6, H b6,
                   L b5, H b5, L b4, H b4, L b3, H b3, L b2, H b2, L b1, H b1, L b0, H b0]"
  define ps where
    "ps = [(b0, b1), (b2, b3), (b4, b5), (b6, b7), (b8, b9), (b10, b11), (b12, b13), (b14, b15)]"
  have nib: "concat (map (\<lambda>i. [fmtHex (unat (ip6 ! i AND 0x0f)),
                                  fmtHex (unat (drop_bit 4 (ip6 ! i)))])
                         (rev [0 ..< 16])) = nibbles"
    unfolding ip6 fmtHex_low fmtHex_high L_def H_def nibbles_def by (simp add: upt_rec)
  have nodot: "\<forall>x\<in>set nibbles. CHR ''.'' \<notin> set x"
    by (simp add: nibbles_def L_def H_def hexDigit_nibble_props)
  have safe: "list_all lowerSafe (Join nibbles ''.'')"
    by (rule list_all_Join [OF _ lowerSafe_dot])
      (simp add: nibbles_def L_def H_def hexDigit_nibble_props)
  have ne: "nibbles \<noteq> []" by (simp add: nibbles_def)
  have sp: "Split (Join nibbles ''.'') (CHR ''.'') = nibbles"
    using Split_Join [OF ne nodot] .
  have len: "length nibbles = 32" by (simp add: nibbles_def)
  have parts: "map (\<lambda>k. map (\<lambda>i. nibbles ! (31 - i)) [0 ..< 32] ! (4 * k)
                        @ map (\<lambda>i. nibbles ! (31 - i)) [0 ..< 32] ! (4 * k + 1)
                        @ map (\<lambda>i. nibbles ! (31 - i)) [0 ..< 32] ! (4 * k + 2)
                        @ map (\<lambda>i. nibbles ! (31 - i)) [0 ..< 32] ! (4 * k + 3)) [0 ..< 8]
               = map (\<lambda>(x, y). hexPair x y) ps"
    unfolding nibbles_def ps_def by (simp add: upt_rec hexPair_def L_def H_def)
  have "reverseDNSToIP (Fqdn (Join nibbles ''.'' @ ''.ip6.arpa''))
        = ParseIP (Join (map (\<lambda>(x, y). hexPair x y) ps) '':'')"
    unfolding reverseDNSToIP_ip6_name [OF safe] sp Let_def parts using len by simp
  also have "\<dots> = Some (concat (map (\<lambda>(x, y). [x, y]) ps))"
    by (rule ParseIP_hexPairs) (simp add: ps_def)
  also have "concat (map (\<lambda>(x, y). [x, y]) ps) = ip6"
    by (simp add: ps_def ip6)
  finally show ?thesis unfolding nib .
qed

section \<open>The trie: properties\<close>

lemma dataAt_Nil [simp]: "dataAt node [] = data node"
  by (simp add: dataAt_def)

lemma dataAt_Cons:
  "dataAt node (l # p) = (case map_of (children node) l of None \<Rightarrow> None | Some c \<Rightarrow> dataAt c p)"
  by (simp add: dataAt_def split: option.splits)

lemma dataAt_fresh [simp]: "dataAt (TrieNode [] None) p = None"
  by (cases p) (simp_all add: dataAt_Cons)

lemma dataAt_addAtPath_same:
  "dataAt (addAtPath node p isV4 ip) p = Some (appendIP isV4 ip (dataAt node p))"
proof (induction p arbitrary: node)
  case Nil
  then show ?case by (simp add: appendIP_def Let_def)
next
  case (Cons l p)
  show ?case
    by (simp add: dataAt_Cons Let_def update_conv' Cons.IH split: option.splits)
qed

lemma dataAt_addAtPath_other:
  "q \<noteq> p \<Longrightarrow> dataAt (addAtPath node p isV4 ip) q = dataAt node q"
proof (induction p arbitrary: node q)
  case Nil
  then obtain l q' where "q = l # q'" by (cases q) auto
  then show ?case by (simp add: dataAt_Cons Let_def)
next
  case (Cons l p)
  show ?case
  proof (cases q)
    case Nil
    then show ?thesis by (simp add: Let_def)
  next
    case (Cons l' q')
    show ?thesis
    proof (cases "l' = l")
      case False
      then show ?thesis using Cons by (simp add: dataAt_Cons Let_def update_conv')
    next
      case True
      with Cons Cons.prems have "q' \<noteq> p" by simp
      then show ?thesis
        using Cons True Cons.IH [of q']
        by (simp add: dataAt_Cons Let_def update_conv' split: option.splits)
    qed
  qed
qed

lemma dataAt_setData_same:
  "walk node p \<noteq> None \<Longrightarrow> dataAt (setData node p d) p = d"
proof (induction p arbitrary: node)
  case Nil
  then show ?case by simp
next
  case (Cons l p)
  then show ?case
    by (auto simp: dataAt_Cons update_conv' split: option.splits)
qed

lemma dataAt_setData_other:
  "q \<noteq> p \<Longrightarrow> dataAt (setData node p d) q = dataAt node q"
proof (induction p arbitrary: node q)
  case Nil
  then obtain l q' where "q = l # q'" by (cases q) auto
  then show ?case by (simp add: dataAt_Cons)
next
  case (Cons l p)
  show ?case
  proof (cases q)
    case Nil
    then show ?thesis by (simp split: option.splits)
  next
    case (Cons l' q')
    show ?thesis
    proof (cases "l' = l")
      case False
      then show ?thesis using Cons by (simp add: dataAt_Cons update_conv' split: option.splits)
    next
      case True
      with Cons Cons.prems have "q' \<noteq> p" by simp
      then show ?thesis
        using Cons True Cons.IH [of q']
        by (simp add: dataAt_Cons update_conv' split: option.splits)
    qed
  qed
qed

lemma walk_Some_if_dataAt: "dataAt node p = Some rs \<Longrightarrow> walk node p \<noteq> None"
  by (auto simp: dataAt_def split: option.splits)

section \<open>Wildcard matching: properties\<close>

lemma matchWildcardInternal_literal:
  assumes "\<forall>k. pi \<le> k \<and> k < length p \<longrightarrow> p ! k \<noteq> CHR ''*'' \<and> p ! k \<noteq> CHR ''?''"
    and "pi \<le> length p" and "di \<le> length d"
  shows "matchWildcardInternal p d pi di = (drop pi p = drop di d)"
  using assms
proof (induction "length p - pi" arbitrary: pi di)
  case 0
  then have "pi = length p" by simp
  then show ?case using "0.prems"(3)
    by (subst matchWildcardInternal.simps) auto
next
  case (Suc n)
  then have lt: "pi < length p" by simp
  have nw: "p ! pi \<noteq> CHR ''*''" "p ! pi \<noteq> CHR ''?''"
    using Suc.prems(1) lt by auto
  show ?case
  proof (cases "di < length d")
    case False
    then have "drop di d = []" by simp
    moreover have "drop pi p \<noteq> []" using lt by simp
    ultimately show ?thesis using lt nw False
      by (subst matchWildcardInternal.simps) auto
  next
    case True
    have IH: "matchWildcardInternal p d (pi + 1) (di + 1) = (drop (pi + 1) p = drop (di + 1) d)"
      using Suc.hyps(1) [of "pi + 1" "di + 1"] Suc.hyps(2) Suc.prems(1) lt True by auto
    have dp: "drop pi p = p ! pi # drop (pi + 1) p"
      using lt by (simp add: Cons_nth_drop_Suc)
    have dd: "drop di d = d ! di # drop (di + 1) d"
      using True by (simp add: Cons_nth_drop_Suc)
    show ?thesis
      using lt nw True IH dp dd
      by (subst matchWildcardInternal.simps) auto
  qed
qed

lemma matchWildcard_anchored:
  assumes "CHR ''*'' \<notin> set s" and "CHR ''?'' \<notin> set s"
  shows "matchWildcard (''*.'' @ s) d =
           (\<exists>i. 1 \<le> i \<and> i \<le> length d \<and> drop i d = CHR ''.'' # s)"
proof -
  let ?p = "''*.'' @ s"
  have lit: "\<forall>k. 1 \<le> k \<and> k < length ?p \<longrightarrow> ?p ! k \<noteq> CHR ''*'' \<and> ?p ! k \<noteq> CHR ''?''"
  proof (intro allI impI)
    fix k assume k: "1 \<le> k \<and> k < length ?p"
    show "?p ! k \<noteq> CHR ''*'' \<and> ?p ! k \<noteq> CHR ''?''"
    proof (cases "k = 1")
      case True
      then show ?thesis by simp
    next
      case False
      with k have "?p ! k = s ! (k - 2)" and "k - 2 < length s"
        by (auto simp: nth_Cons' numeral_2_eq_2)
      then show ?thesis using assms by (metis nth_mem)
    qed
  qed
  have inner: "matchWildcardInternal ?p d 1 i = (CHR ''.'' # s = drop i d)" if "i \<le> length d" for i
    using matchWildcardInternal_literal [OF lit _ that] by simp
  have "matchWildcard ?p d =
          (d \<noteq> [] \<and> list_ex (\<lambda>i. matchWildcardInternal ?p d 1 i) [1 ..< length d + 1])"
    unfolding matchWildcard_def
    by (subst matchWildcardInternal.simps) auto
  also have "\<dots> = (\<exists>i. 1 \<le> i \<and> i \<le> length d \<and> drop i d = CHR ''.'' # s)"
    using inner by (auto simp: list_ex_iff)
  finally show ?thesis .
qed

text \<open>
  C2. For a wildcard-free, non-empty suffix \<open>s\<close> the pattern \<open>*.s\<close> matches every
  \<open>x.s\<close> with non-empty \<open>x\<close> and does not match \<open>s\<close> itself. The leading anchored
  star consumes at least one byte: \<open>.s\<close>, where the star would have to match the empty
  string, is not matched, and the names that the pattern matches are exactly the names
  \<open>x.s\<close> with non-empty \<open>x\<close>.
\<close>

theorem C2_anchored_star:
  assumes "s \<noteq> []" and "CHR ''*'' \<notin> set s" and "CHR ''?'' \<notin> set s"
  shows "(\<forall>x. x \<noteq> [] \<longrightarrow> matchWildcard (''*.'' @ s) (x @ ''.'' @ s))
         \<and> \<not> matchWildcard (''*.'' @ s) s
         \<and> \<not> matchWildcard (''*.'' @ s) (''.'' @ s)
         \<and> (\<forall>d. matchWildcard (''*.'' @ s) d \<longleftrightarrow> (\<exists>x. x \<noteq> [] \<and> d = x @ ''.'' @ s))"
proof -
  have iff: "matchWildcard (''*.'' @ s) d \<longleftrightarrow> (\<exists>x. x \<noteq> [] \<and> d = x @ ''.'' @ s)" for d
  proof
    assume "matchWildcard (''*.'' @ s) d"
    then obtain i where i: "1 \<le> i" "i \<le> length d" "drop i d = CHR ''.'' # s"
      unfolding matchWildcard_anchored [OF assms(2,3)] by blast
    have "d = take i d @ ''.'' @ s" using i(3) by (metis append_Cons append_Nil append_take_drop_id)
    moreover have "take i d \<noteq> []" using i(1,2) by (cases d) auto
    ultimately show "\<exists>x. x \<noteq> [] \<and> d = x @ ''.'' @ s" by blast
  next
    assume "\<exists>x. x \<noteq> [] \<and> d = x @ ''.'' @ s"
    then obtain x where x: "x \<noteq> []" "d = x @ ''.'' @ s" by blast
    then have "1 \<le> length x \<and> length x \<le> length d \<and> drop (length x) d = CHR ''.'' # s"
      by (cases x) auto
    then show "matchWildcard (''*.'' @ s) d"
      unfolding matchWildcard_anchored [OF assms(2,3)] by blast
  qed
  have a: "matchWildcard (''*.'' @ s) (x @ ''.'' @ s)" if "x \<noteq> []" for x
    unfolding iff using that by blast
  have b: "\<not> matchWildcard (''*.'' @ s) s"
  proof
    assume "matchWildcard (''*.'' @ s) s"
    then obtain x where "s = x @ ''.'' @ s" unfolding iff by blast
    then have "length s = length (x @ ''.'' @ s)" by simp
    then show False by simp
  qed
  have c: "\<not> matchWildcard (''*.'' @ s) (''.'' @ s)"
  proof
    assume "matchWildcard (''*.'' @ s) (''.'' @ s)"
    then obtain x where x: "x \<noteq> []" "''.'' @ s = x @ ''.'' @ s" unfolding iff by blast
    from x(2) have "length (''.'' @ s) = length (x @ ''.'' @ s)" by simp
    then show False using x(1) by simp
  qed
  show ?thesis using a b c iff by blast
qed

theorem C2_anchored_star_witness:
  "matchWildcard ''*.autoco.internal.'' ''host.autoco.internal.''
   \<and> matchWildcard ''*.autoco.internal.'' ''a.b.autoco.internal.''
   \<and> \<not> matchWildcard ''*.autoco.internal.'' ''autoco.internal.''
   \<and> \<not> matchWildcard ''*.autoco.internal.'' ''.autoco.internal.''"
proof -
  have s: "''autoco.internal.'' \<noteq> []" "CHR ''*'' \<notin> set ''autoco.internal.''"
    "CHR ''?'' \<notin> set ''autoco.internal.''"
    by simp_all
  have a: "''host'' \<noteq> []" and b: "''a.b'' \<noteq> []" by simp_all
  from C2_anchored_star [OF s] a b
  have "matchWildcard (''*.'' @ ''autoco.internal.'') (''host'' @ ''.'' @ ''autoco.internal.'')"
    and "matchWildcard (''*.'' @ ''autoco.internal.'') (''a.b'' @ ''.'' @ ''autoco.internal.'')"
    and "\<not> matchWildcard (''*.'' @ ''autoco.internal.'') ''autoco.internal.''"
    and "\<not> matchWildcard (''*.'' @ ''autoco.internal.'') (''.'' @ ''autoco.internal.'')"
    by blast+
  then show ?thesis by simp
qed

section \<open>Queries: properties\<close>

lemma fold_wildcards:
  "fold (\<lambda>(pattern, rs) records.
           if \<not> matchWildcard pattern d then records
           else if q = RecordTypeA then records @ A rs
           else records @ AAAA rs) ws acc
   = acc @ concat (map (\<lambda>(p, rs). typedList q rs) (filter (\<lambda>(p, rs). matchWildcard p d) ws))"
  by (induction ws arbitrary: acc) (auto simp: typedList_def case_prod_beta)

lemma GetRecords_eq:
  "GetRecords s d q =
     (if exactRecords s d q \<noteq> [] then exactRecords s d q
      else concat (map (\<lambda>(p, rs). typedList q rs) (matchingWildcards s d)))"
proof -
  have e: "(case walk (root s) (domainToPath (ToLower (Fqdn d))) of
           None \<Rightarrow> []
         | Some node \<Rightarrow>
             (case data node of
                None \<Rightarrow> []
              | Some rs \<Rightarrow> if q = RecordTypeA then A rs else AAAA rs)) = exactRecords s d q"
    unfolding exactRecords_def typedList_def ..
  show ?thesis
    unfolding GetRecords_def Let_def fold_wildcards matchingWildcards_def e
    by simp
qed

lemma HasRecord_eq:
  assumes "q = RecordTypeA \<or> q = RecordTypeAAAA"
  shows "HasRecord s d q =
     (exactRecords s d q \<noteq> [] \<or> list_ex (\<lambda>(p, rs). typedList q rs \<noteq> []) (matchingWildcards s d))"
proof -
  have ne: "RecordTypeA \<noteq> RecordTypeAAAA" by (simp add: RecordTypeA_def RecordTypeAAAA_def)
  show ?thesis
    using assms ne
    unfolding HasRecord_def exactRecords_def matchingWildcards_def Let_def
    by (force simp: typedList_def list_ex_iff split: option.splits)
qed



section \<open>Reverse-DNS names: properties\<close>

lemma validIP_length: "validIP ip \<longleftrightarrow> length ip = 4 \<or> length ip = 16"
  by (auto simp: validIP_def To4_def To16_def)

lemma list4:
  assumes "length (xs :: 'a list) = 4"
  shows "xs = [xs ! 0, xs ! 1, xs ! 2, xs ! 3]"
  using assms by (auto simp: length_Suc_conv numeral_eq_Suc)

lemma To4_length: "To4 ip = Some ip4 \<Longrightarrow> length ip4 = 4"
  by (auto simp: To4_def split: if_splits)

lemma To4_To16: "To4 ip = Some ip4 \<Longrightarrow> To16 ip = Some (v4InV6Prefix @ ip4)"
proof -
  assume a: "To4 ip = Some ip4"
  show ?thesis
  proof (cases "length ip = 4")
    case True
    then show ?thesis using a by (simp add: To4_def To16_def)
  next
    case False
    with a have "length ip = 16" "take 12 ip = v4InV6Prefix" "ip4 = drop 12 ip"
      by (auto simp: To4_def split: if_splits)
    then have "v4InV6Prefix @ ip4 = ip" by (metis append_take_drop_id)
    then show ?thesis using \<open>length ip = 16\<close> by (simp add: To16_def)
  qed
qed

lemma reverseDNSToIP_IPToReverseDNS:
  assumes "validIP ip"
  shows "reverseDNSToIP (IPToReverseDNS ip) = To16 ip"
proof (cases "To4 ip")
  case (Some ip4)
  have l: "length ip4 = 4" using To4_length [OF Some] .
  have b: "unat (ip4 ! 0) < 256" "unat (ip4 ! 1) < 256" "unat (ip4 ! 2) < 256" "unat (ip4 ! 3) < 256"
    by (rule unat_lt_256)+
  have "reverseDNSToIP (IPToReverseDNS ip)
        = Some (v4InV6Prefix @ [ip4 ! 0, ip4 ! 1, ip4 ! 2, ip4 ! 3])"
    using reverseDNSToIP_in_addr [OF b] by (simp add: IPToReverseDNS_def Some)
  also have "[ip4 ! 0, ip4 ! 1, ip4 ! 2, ip4 ! 3] = ip4" using list4 [OF l] by simp
  finally show ?thesis using To4_To16 [OF Some] by simp
next
  case None
  with assms have l: "length ip = 16" and t: "To16 ip = Some ip"
    by (auto simp: validIP_def To4_def To16_def split: if_splits)
  show ?thesis
    using reverseDNSToIP_ip6 [OF l] by (simp add: IPToReverseDNS_def None t)
qed

lemma To4_of_To16: "To16 ip = Some r \<Longrightarrow> To4 r = To4 ip"
  by (auto simp: To4_def To16_def v4InV6Prefix_def split: if_splits)

lemma IPString_To16: "To16 ip = Some r \<Longrightarrow> IPString r = IPString ip"
proof -
  assume a: "To16 ip = Some r"
  then have lr: "length r = 16" by (auto simp: To16_def v4InV6Prefix_def split: if_splits)
  from a have li: "length ip = 4 \<or> length ip = 16" by (auto simp: To16_def split: if_splits)
  show ?thesis
  proof (cases "To4 ip")
    case (Some p4)
    then show ?thesis using To4_of_To16 [OF a] lr li by (auto simp: IPString_def)
  next
    case None
    then have "r = ip" using a by (auto simp: To4_def To16_def split: if_splits)
    then show ?thesis by simp
  qed
qed

lemma Equal_To16: "To16 ip = Some r \<Longrightarrow> Equal r ip \<and> Equal ip r"
  by (auto simp: To16_def Equal_def v4InV6Prefix_def split: if_splits)

lemma validIP_To16: "validIP ip \<Longrightarrow> \<exists>r. To16 ip = Some r"
  by (auto simp: validIP_def To4_def To16_def split: if_splits)

lemma IPString_roundtrip:
  assumes "validIP ip"
  shows "\<exists>r. reverseDNSToIP (IPToReverseDNS ip) = Some r \<and> IPString r = IPString ip"
  using validIP_To16 [OF assms] reverseDNSToIP_IPToReverseDNS [OF assms] IPString_To16 by auto

lemma GetPTRRecord_reverse:
  assumes "validIP ip"
  shows "GetPTRRecord s (IPToReverseDNS ip) =
           (case ptrRecords s (IPString ip) of
              Some ptrDomain \<Rightarrow> (ptrDomain, True)
            | None \<Rightarrow> ('''', False))"
  using IPString_roundtrip [OF assms] by (auto simp: GetPTRRecord_def)

lemma HasPTRRecord_reverse:
  assumes "validIP ip"
  shows "HasPTRRecord s (IPToReverseDNS ip) = (ptrRecords s (IPString ip) \<noteq> None)"
  using IPString_roundtrip [OF assms] by (auto simp: HasPTRRecord_def)

text \<open>
  C6 (as amended). For a valid address the reverse name parses back to an equal address. For
  a name of ASCII bytes: a name with neither suffix, an in-addr.arpa name whose prefix does not
  split into 4 labels and an ip6.arpa name whose prefix does not split into 32 labels give
  nil.
\<close>

theorem C6_reverse_roundtrip:
  "(validIP ip \<longrightarrow>
      (\<exists>r. reverseDNSToIP (IPToReverseDNS ip) = Some r \<and> Equal r ip \<and> Equal ip r))
   \<and> (isASCII name
        \<and> \<not> HasSuffix (ToLower (Fqdn name)) ''.in-addr.arpa.''
        \<and> \<not> HasSuffix (ToLower (Fqdn name)) ''.ip6.arpa.''
      \<longrightarrow> reverseDNSToIP name = None)
   \<and> (isASCII name
        \<and> HasSuffix (ToLower (Fqdn name)) ''.in-addr.arpa.''
        \<and> length (Split (TrimSuffix (ToLower (Fqdn name)) ''.in-addr.arpa.'') (CHR ''.'')) \<noteq> 4
      \<longrightarrow> reverseDNSToIP name = None)
   \<and> (isASCII name
        \<and> \<not> HasSuffix (ToLower (Fqdn name)) ''.in-addr.arpa.''
        \<and> HasSuffix (ToLower (Fqdn name)) ''.ip6.arpa.''
        \<and> length (Split (TrimSuffix (ToLower (Fqdn name)) ''.ip6.arpa.'') (CHR ''.'')) \<noteq> 32
      \<longrightarrow> reverseDNSToIP name = None)"
proof (intro conjI impI)
  assume "validIP ip"
  then show "\<exists>r. reverseDNSToIP (IPToReverseDNS ip) = Some r \<and> Equal r ip \<and> Equal ip r"
    using validIP_To16 reverseDNSToIP_IPToReverseDNS Equal_To16 by metis
qed (simp_all add: reverseDNSToIP_def Let_def)

theorem C6_reverse_roundtrip_witness:
  "reverseDNSToIP (IPToReverseDNS [192, 168, 1, 1])
     = Some [0, 0, 0, 0, 0, 0, 0, 0, 0, 0, 0xff, 0xff, 192, 168, 1, 1]
   \<and> Equal [0, 0, 0, 0, 0, 0, 0, 0, 0, 0, 0xff, 0xff, 192, 168, 1, 1] [192, 168, 1, 1]
   \<and> reverseDNSToIP ''example.com.'' = None
   \<and> reverseDNSToIP ''1.1.168.in-addr.arpa.'' = None
   \<and> reverseDNSToIP ''1.0.0.0.ip6.arpa.'' = None"
proof -
  have v: "validIP [192, 168, 1, 1]" by (simp add: validIP_def To4_def)
  have e: "reverseDNSToIP (IPToReverseDNS [192, 168, 1, 1])
           = Some [0, 0, 0, 0, 0, 0, 0, 0, 0, 0, 0xff, 0xff, 192, 168, 1, 1]"
    by code_simp
  have asc: "isASCII ''example.com.''" "isASCII ''1.1.168.in-addr.arpa.''"
    "isASCII ''1.0.0.0.ip6.arpa.''"
    by code_simp+
  have n1: "\<not> HasSuffix (ToLower (Fqdn ''example.com.'')) ''.in-addr.arpa.''
            \<and> \<not> HasSuffix (ToLower (Fqdn ''example.com.'')) ''.ip6.arpa.''"
    by code_simp
  have n2: "HasSuffix (ToLower (Fqdn ''1.1.168.in-addr.arpa.'')) ''.in-addr.arpa.''
      \<and> length (Split (TrimSuffix (ToLower (Fqdn ''1.1.168.in-addr.arpa.'')) ''.in-addr.arpa.'')
                  (CHR ''.'')) \<noteq> 4"
    by code_simp
  have n3: "\<not> HasSuffix (ToLower (Fqdn ''1.0.0.0.ip6.arpa.'')) ''.in-addr.arpa.''
      \<and> HasSuffix (ToLower (Fqdn ''1.0.0.0.ip6.arpa.'')) ''.ip6.arpa.''
      \<and> length (Split (TrimSuffix (ToLower (Fqdn ''1.0.0.0.ip6.arpa.'')) ''.ip6.arpa.'')
                  (CHR ''.'')) \<noteq> 32"
    by code_simp
  from C6_reverse_roundtrip [of "[192, 168, 1, 1]" "''example.com.''"] v e n1 asc(1)
  have a: "Equal [0, 0, 0, 0, 0, 0, 0, 0, 0, 0, 0xff, 0xff, 192, 168, 1, 1] [192, 168, 1, 1]"
    and b: "reverseDNSToIP ''example.com.'' = None"
    by auto
  from C6_reverse_roundtrip [of "[192, 168, 1, 1]" "''1.1.168.in-addr.arpa.''"] n2 asc(2)
  have c: "reverseDNSToIP ''1.1.168.in-addr.arpa.'' = None" by blast
  from C6_reverse_roundtrip [of "[192, 168, 1, 1]" "''1.0.0.0.ip6.arpa.''"] n3 asc(3)
  have d: "reverseDNSToIP ''1.0.0.0.ip6.arpa.'' = None" by blast
  show ?thesis using e a b c d by simp
qed

lemma reverseDNSToIP_ip6_name_dot:
  assumes "list_all lowerSafe x"
  shows "reverseDNSToIP (x @ ''.ip6.arpa.'') =
           (let parts = Split x (CHR ''.'')
            in if length parts \<noteq> 32 then None
               else
                 (let reversed = map (\<lambda>i. parts ! (31 - i)) [0 ..< 32];
                      ipv6Parts =
                        map (\<lambda>k. reversed ! (4 * k) @ reversed ! (4 * k + 1)
                                   @ reversed ! (4 * k + 2) @ reversed ! (4 * k + 3)) [0 ..< 8]
                  in ParseIP (Join ipv6Parts '':'')))"
proof -
  have "Fqdn (x @ ''.ip6.arpa'') = x @ ''.ip6.arpa.''"
    by (simp add: Fqdn_def IsFqdn_def)
  then show ?thesis using reverseDNSToIP_ip6_name [OF assms] by simp
qed

lemma malformed_split:
  "Split ''0001....0.0.0.0.0.0.0.0.0.0.0.0.0.0.0.0.0.0.0.0.0.0.0.0.0.0.0.0'' (CHR ''.'')
   = [''0001'', '''', '''', '''', ''0'', ''0'', ''0'', ''0'', ''0'', ''0'', ''0'', ''0'', ''0'', ''0'',
      ''0'', ''0'', ''0'', ''0'', ''0'', ''0'', ''0'', ''0'', ''0'', ''0'', ''0'', ''0'', ''0'', ''0'',
      ''0'', ''0'', ''0'', ''0'']"
  by simp

lemma hexPair_zero: "hexPair 0 0 = ''0000''" "hexPair 0 1 = ''0001''"
  by code_simp+

lemma malformed_safe:
  "list_all lowerSafe ''0001....0.0.0.0.0.0.0.0.0.0.0.0.0.0.0.0.0.0.0.0.0.0.0.0.0.0.0.0''"
  by (simp add: lowerSafe_def)

lemma malformed_parse:
  "reverseDNSToIP ''0001....0.0.0.0.0.0.0.0.0.0.0.0.0.0.0.0.0.0.0.0.0.0.0.0.0.0.0.0.ip6.arpa.''
   = Some [0, 0, 0, 0, 0, 0, 0, 0, 0, 0, 0, 0, 0, 0, 0, 1]"
proof -
  let ?ps = "[(0, 0), (0, 0), (0, 0), (0, 0), (0, 0), (0, 0), (0, 0), (0, 1)] :: (8 word \<times> 8 word) list"
  have g: "map (\<lambda>(x, y). hexPair x y) ?ps
           = [''0000'', ''0000'', ''0000'', ''0000'', ''0000'', ''0000'', ''0000'', ''0001'']"
    by (simp add: hexPair_zero)
  have "reverseDNSToIP (''0001....0.0.0.0.0.0.0.0.0.0.0.0.0.0.0.0.0.0.0.0.0.0.0.0.0.0.0.0''
                          @ ''.ip6.arpa.'')
        = ParseIP (Join (map (\<lambda>(x, y). hexPair x y) ?ps) '':'')"
    unfolding reverseDNSToIP_ip6_name_dot [OF malformed_safe] malformed_split g Let_def
    by (simp add: upt_rec del: Join.simps)
  also have "\<dots> = Some (concat (map (\<lambda>(x, y). [x, y]) ?ps))"
    by (rule ParseIP_hexPairs) simp
  finally show ?thesis by simp
qed

text \<open>
  The 32 labels of an ip6.arpa name are only counted: their text is concatenated four by four
  and left to \<^verbatim>\<open>net.ParseIP\<close>. The name below has 32 labels that are not 32 single
  hexadecimal digits (one label is \<open>0001\<close>, three are empty) and still yields \<open>::1\<close>.
\<close>

theorem C6_non_nibble_labels_counterexample:
  "length (Split ''0001....0.0.0.0.0.0.0.0.0.0.0.0.0.0.0.0.0.0.0.0.0.0.0.0.0.0.0.0'' (CHR ''.'')) = 32
   \<and> \<not> list_all nibbleLabel
         (Split ''0001....0.0.0.0.0.0.0.0.0.0.0.0.0.0.0.0.0.0.0.0.0.0.0.0.0.0.0.0'' (CHR ''.''))
   \<and> reverseDNSToIP ''0001....0.0.0.0.0.0.0.0.0.0.0.0.0.0.0.0.0.0.0.0.0.0.0.0.0.0.0.0.ip6.arpa.''
       = Some [0, 0, 0, 0, 0, 0, 0, 0, 0, 0, 0, 0, 0, 0, 0, 1]"
  unfolding malformed_split using malformed_parse by (simp add: nibbleLabel_def)

section \<open>The text of an address\<close>

lemma fmtDec_digits: "list_all isDigit (fmtDec n)"
proof (induction n rule: fmtDec.induct)
  case (1 n)
  have "n mod 10 < 10" by simp
  then show ?case
    using 1 by (subst fmtDec.simps) (auto simp: digitChar_props)
qed

lemma hexChar_hexDigit: "n < 16 \<Longrightarrow> hexChar (hexDigit n)"
  by (auto simp: hexChar_def of_char_hexDigit)

lemma fmtHex_chars: "list_all hexChar (fmtHex n)"
proof (induction n rule: fmtHex.induct)
  case (1 n)
  have "n mod 16 < 16" by simp
  then show ?case
    using 1 by (subst fmtHex.simps) (auto simp: hexChar_hexDigit)
qed

lemma string4_chars:
  "list_all (\<lambda>c. isDigit c \<or> c = CHR ''.'') (string4 p4)"
  unfolding string4_def
  by (rule list_all_Join) (auto simp: list_all_iff dest: fmtDec_digits [unfolded list_all_iff, rule_format])

lemma string4_has_dot: "length p4 = 4 \<Longrightarrow> CHR ''.'' \<in> set (string4 p4)"
proof -
  assume "length p4 = 4"
  then obtain a b c d where "p4 = [a, b, c, d]"
    by (auto simp: length_Suc_conv numeral_eq_Suc)
  then show ?thesis by (simp add: string4_def)
qed

lemma Join_hex_chars:
  assumes "list_all (list_all hexChar) xs"
  shows "list_all (\<lambda>c. hexChar c \<or> c = CHR '':'') (Join xs '':'')"
  by (rule list_all_Join) (use assms in \<open>auto simp: list_all_iff\<close>)

lemma string6_chars: "list_all (\<lambda>c. hexChar c \<or> c = CHR '':'') (string6 ip)"
proof -
  define gs where "gs = map (v6u16 ip) [0 ..< 8]"
  obtain zs ze where z: "zeroRun gs = (zs, ze)" by (cases "zeroRun gs")
  have h: "list_all (list_all hexChar) (map fmtHex gs)"
    by (simp add: list_all_iff fmtHex_chars [unfolded list_all_iff])
  then have t: "list_all (list_all hexChar) (map fmtHex (take zs gs))"
    and d: "list_all (list_all hexChar) (map fmtHex (drop ze gs))"
    by (auto simp: list_all_iff dest: in_set_takeD in_set_dropD)
  show ?thesis
    using Join_hex_chars [OF h] Join_hex_chars [OF t] Join_hex_chars [OF d]
    unfolding string6_def gs_def [symmetric] Let_def z by simp
qed

lemma special_chars:
  "\<not> isDigit (CHR ''?'')" "\<not> isDigit (CHR ''<'')" "\<not> hexChar (CHR ''?'')" "\<not> hexChar (CHR ''<'')"
  "\<not> hexChar (CHR ''.'')"
  by (simp_all add: isDigit_def hexChar_def)

lemma IPString_v4:
  assumes "To4 ip \<noteq> None"
  shows "CHR ''.'' \<in> set (IPString ip)" "CHR ''?'' \<notin> set (IPString ip)"
    "CHR ''<'' \<notin> set (IPString ip)"
proof -
  from assms obtain p4 where p4: "To4 ip = Some p4" by auto
  have l: "length p4 = 4" using To4_length [OF p4] .
  have li: "length ip = 4 \<or> length ip = 16" using p4 by (auto simp: To4_def split: if_splits)
  have s: "IPString ip = string4 p4" using p4 li by (auto simp: IPString_def)
  show "CHR ''.'' \<in> set (IPString ip)" unfolding s by (rule string4_has_dot [OF l])
  show "CHR ''?'' \<notin> set (IPString ip)" "CHR ''<'' \<notin> set (IPString ip)"
    unfolding s using string4_chars [of p4] special_chars by (auto simp: list_all_iff)
qed

lemma IPString_v6:
  assumes "To4 ip = None" and "length ip = 16"
  shows "CHR ''.'' \<notin> set (IPString ip)" "CHR ''?'' \<notin> set (IPString ip)"
    "CHR ''<'' \<notin> set (IPString ip)"
proof -
  have s: "IPString ip = string6 ip" using assms by (simp add: IPString_def)
  show "CHR ''.'' \<notin> set (IPString ip)" "CHR ''?'' \<notin> set (IPString ip)"
    "CHR ''<'' \<notin> set (IPString ip)"
    unfolding s using string6_chars [of ip] special_chars by (auto simp: list_all_iff)
qed

lemma IPString_invalid:
  assumes "\<not> validIP ip"
  shows "CHR ''?'' \<in> set (IPString ip) \<or> CHR ''<'' \<in> set (IPString ip)"
  using assms by (auto simp: validIP_length IPString_def)

section \<open>The record store: properties\<close>

lemma ContainsAny_normalizeDomain [simp]:
  "ContainsAny (normalizeDomain d) ''*?'' = ContainsAny d ''*?''"
proof -
  have t: "ContainsAny (ToLower x) ''*?'' = ContainsAny x ''*?''" for x
    by (induction x) (auto simp: ContainsAny_def ToLower_def)
  have a: "ContainsAny (x @ ''.'') ''*?'' = ContainsAny x ''*?''" for x
    by (auto simp: ContainsAny_def list_ex_iff)
  have f: "ContainsAny (Fqdn x) ''*?'' = ContainsAny x ''*?''" for x
    using a by (simp add: Fqdn_def)
  show ?thesis
    unfolding normalizeDomain_def t f using a by simp
qed

lemma AddRecord_exact:
  assumes "validIP ip" "\<not> ContainsAny d ''*?''"
  shows "AddRecord s d ip =
           Inr (s\<lparr>root := addAtPath (root s) (domainToPath (normalizeDomain d)) (To4 ip \<noteq> None) ip,
                  ptrRecords := (ptrRecords s)(IPString ip \<mapsto> normalizeDomain d)\<rparr>)"
  using assms by (auto simp: AddRecord_def validIP_def Let_def)

lemma AddRecord_wildcard:
  assumes "validIP ip" "ContainsAny p ''*?''"
  shows "AddRecord s p ip =
           Inr (s\<lparr>wildcards :=
                    AList.update (normalizeDomain p)
                      (appendIP (To4 ip \<noteq> None) ip (map_of (wildcards s) (normalizeDomain p)))
                      (wildcards s)\<rparr>)"
  using assms by (auto simp: AddRecord_def validIP_def Let_def appendIP_def)

lemma AddRecord_invalid:
  assumes "\<not> validIP ip"
  shows "AddRecord s d ip = Inl (ParseError ''IP address'' (IPString ip))"
  using assms by (auto simp: AddRecord_def validIP_def Let_def)

lemma walk_data_dataAt:
  "(\<exists>node. walk t p = Some node \<and> data node = Some rs) \<longleftrightarrow> dataAt t p = Some rs"
  by (auto simp: dataAt_def split: option.splits)

lemma RemoveRecord_exact_ip:
  assumes "\<not> ContainsAny d ''*?''"
    and "dataAt (root s) (domainToPath (normalizeDomain d)) = Some rs"
  shows "RemoveRecord s d (Some ip) =
           (let rs' = (if To4 ip \<noteq> None then rs\<lparr>A := removeIP (A rs) ip\<rparr>
                       else rs\<lparr>AAAA := removeIP (AAAA rs) ip\<rparr>)
            in s\<lparr>ptrRecords := deletePTRIfOwned (ptrRecords s) ip (normalizeDomain d),
                  root := setData (root s) (domainToPath (normalizeDomain d))
                            (if length (A rs') = 0 \<and> length (AAAA rs') = 0
                             then None else Some rs')\<rparr>)"
proof -
  from assms(2) obtain node where "walk (root s) (domainToPath (normalizeDomain d)) = Some node"
    "data node = Some rs"
    using walk_data_dataAt by blast
  then show ?thesis using assms(1) by (simp add: RemoveRecord_def Let_def)
qed

lemma RemoveRecord_exact_absent:
  assumes "\<not> ContainsAny d ''*?''"
    and "dataAt (root s) (domainToPath (normalizeDomain d)) = None"
  shows "RemoveRecord s d ipOpt = s"
  using assms by (auto simp: RemoveRecord_def Let_def dataAt_def split: option.splits)

lemma afterAddRecord_exact:
  assumes "validIP ip" "\<not> ContainsAny d ''*?''"
  shows "afterAddRecord s d ip =
           s\<lparr>root := addAtPath (root s) (domainToPath (normalizeDomain d)) (To4 ip \<noteq> None) ip,
             ptrRecords := (ptrRecords s)(IPString ip \<mapsto> normalizeDomain d)\<rparr>"
  by (simp add: afterAddRecord_def AddRecord_exact [OF assms])

text \<open>
  C3 (as amended). Two exact names of ASCII bytes with different normalized forms and a valid
  address: after both adds the PTR entry of the address is the second name; removing the
  address from the first name keeps it; removing it from the second name deletes it.
\<close>

theorem C3_last_writer_PTR:
  assumes "validIP ip" and "\<not> ContainsAny d1 ''*?''" and "\<not> ContainsAny d2 ''*?''"
    and "normalizeDomain d1 \<noteq> normalizeDomain d2"
    and "isASCII d1" and "isASCII d2"
  shows "GetPTRRecord (afterAddRecord (afterAddRecord s d1 ip) d2 ip) (IPToReverseDNS ip)
           = (normalizeDomain d2, True)
       \<and> GetPTRRecord (RemoveRecord (afterAddRecord (afterAddRecord s d1 ip) d2 ip) d1 (Some ip))
           (IPToReverseDNS ip) = (normalizeDomain d2, True)
       \<and> GetPTRRecord
           (RemoveRecord
              (RemoveRecord (afterAddRecord (afterAddRecord s d1 ip) d2 ip) d1 (Some ip))
              d2 (Some ip))
           (IPToReverseDNS ip) = ('''', False)"
proof -
  let ?n1 = "normalizeDomain d1" and ?n2 = "normalizeDomain d2"
  let ?p1 = "domainToPath ?n1" and ?p2 = "domainToPath ?n2"
  let ?v = "To4 ip \<noteq> None"
  let ?k = "IPString ip"
  define s1 where "s1 = afterAddRecord s d1 ip"
  define s2 where "s2 = afterAddRecord s1 d2 ip"
  define s3 where "s3 = RemoveRecord s2 d1 (Some ip)"
  define s4 where "s4 = RemoveRecord s3 d2 (Some ip)"
  have pne: "?p1 \<noteq> ?p2" using assms(4) domainToPath_inj by blast
  have s1: "s1 = s\<lparr>root := addAtPath (root s) ?p1 ?v ip, ptrRecords := (ptrRecords s)(?k \<mapsto> ?n1)\<rparr>"
    unfolding s1_def by (rule afterAddRecord_exact [OF assms(1,2)])
  have s2: "s2 = s1\<lparr>root := addAtPath (root s1) ?p2 ?v ip, ptrRecords := (ptrRecords s1)(?k \<mapsto> ?n2)\<rparr>"
    unfolding s2_def by (rule afterAddRecord_exact [OF assms(1,3)])
  have ptr2: "ptrRecords s2 ?k = Some ?n2" by (simp add: s2)
  have d21: "dataAt (root s2) ?p1 = Some (appendIP ?v ip (dataAt (root s) ?p1))"
    using pne by (simp add: s2 s1 dataAt_addAtPath_other dataAt_addAtPath_same)
  have d22: "dataAt (root s2) ?p2 = Some (appendIP ?v ip (dataAt (root s1) ?p2))"
    by (simp add: s2 dataAt_addAtPath_same)
  have own: "deletePTRIfOwned (ptrRecords s2) ip ?n1 = ptrRecords s2"
    using ptr2 assms(4) by (simp add: deletePTRIfOwned_def)
  have ptr3: "ptrRecords s3 = ptrRecords s2"
    unfolding s3_def RemoveRecord_exact_ip [OF assms(2) d21] by (simp add: Let_def own)
  obtain x where root3: "root s3 = setData (root s2) ?p1 x"
    unfolding s3_def RemoveRecord_exact_ip [OF assms(2) d21] by (simp add: Let_def)
  have d32: "dataAt (root s3) ?p2 = Some (appendIP ?v ip (dataAt (root s1) ?p2))"
    using pne d22 by (simp add: root3 dataAt_setData_other)
  have ptr4: "ptrRecords s4 = (ptrRecords s3)(?k := None)"
    unfolding s4_def RemoveRecord_exact_ip [OF assms(3) d32]
    using ptr2 ptr3 by (simp add: Let_def deletePTRIfOwned_def)
  have "GetPTRRecord s2 (IPToReverseDNS ip) = (?n2, True)"
    by (simp add: GetPTRRecord_reverse [OF assms(1)] ptr2)
  moreover have "GetPTRRecord s3 (IPToReverseDNS ip) = (?n2, True)"
    by (simp add: GetPTRRecord_reverse [OF assms(1)] ptr3 ptr2)
  moreover have "GetPTRRecord s4 (IPToReverseDNS ip) = ('''', False)"
    by (simp add: GetPTRRecord_reverse [OF assms(1)] ptr4)
  ultimately show ?thesis unfolding s4_def s3_def s2_def s1_def by simp
qed

theorem C3_last_writer_PTR_witness:
  "GetPTRRecord
     (afterAddRecord (afterAddRecord NewDNSRecordStore ''host.example.com'' [192, 168, 1, 100])
        ''host2.example.com'' [192, 168, 1, 100])
     ''100.1.168.192.in-addr.arpa.'' = (''host2.example.com.'', True)
   \<and> GetPTRRecord
       (RemoveRecord
          (afterAddRecord (afterAddRecord NewDNSRecordStore ''host.example.com'' [192, 168, 1, 100])
             ''host2.example.com'' [192, 168, 1, 100])
          ''host.example.com'' (Some [192, 168, 1, 100]))
       ''100.1.168.192.in-addr.arpa.'' = (''host2.example.com.'', True)
   \<and> GetPTRRecord
       (RemoveRecord
          (RemoveRecord
             (afterAddRecord (afterAddRecord NewDNSRecordStore ''host.example.com'' [192, 168, 1, 100])
                ''host2.example.com'' [192, 168, 1, 100])
             ''host.example.com'' (Some [192, 168, 1, 100]))
          ''host2.example.com'' (Some [192, 168, 1, 100]))
       ''100.1.168.192.in-addr.arpa.'' = ('''', False)"
proof -
  have v: "validIP [192, 168, 1, 100]" by (simp add: validIP_def To4_def)
  have w1: "\<not> ContainsAny ''host.example.com'' ''*?''"
    and w2: "\<not> ContainsAny ''host2.example.com'' ''*?''"
    by (simp_all add: ContainsAny_def)
  have n1: "normalizeDomain ''host.example.com'' = ''host.example.com.''"
    and n2: "normalizeDomain ''host2.example.com'' = ''host2.example.com.''"
    by code_simp+
  have ne: "normalizeDomain ''host.example.com'' \<noteq> normalizeDomain ''host2.example.com''"
    unfolding n1 n2 by simp
  have r: "IPToReverseDNS [192, 168, 1, 100] = ''100.1.168.192.in-addr.arpa.''"
    by code_simp
  have a1: "isASCII ''host.example.com''" and a2: "isASCII ''host2.example.com''"
    by code_simp+
  show ?thesis
    using C3_last_writer_PTR [OF v w1 w2 ne a1 a2, of NewDNSRecordStore] unfolding r n2 .
qed

theorem C3_same_normal_form_counterexample:
  "\<not> (''A.'' \<noteq> ''a.'' \<and> \<not> ContainsAny ''A.'' ''*?'' \<and> \<not> ContainsAny ''a.'' ''*?''
       \<and> validIP [10, 0, 0, 1]
      \<longrightarrow> GetPTRRecord
            (RemoveRecord
               (afterAddRecord (afterAddRecord NewDNSRecordStore ''A.'' [10, 0, 0, 1])
                  ''a.'' [10, 0, 0, 1])
               ''A.'' (Some [10, 0, 0, 1]))
            (IPToReverseDNS [10, 0, 0, 1]) = (normalizeDomain ''a.'', True))"
  by code_simp

text \<open>
  C8. Adding an address under a wildcard pattern leaves the PTR table as it was, so both PTR
  observers answer every reverse name as before; with no entry for the address before the
  call, its reverse name is still not found after it.
\<close>

theorem C8_wildcard_add_keeps_PTR:
  assumes "validIP ip" and "ContainsAny p ''*?''"
  shows "AddRecord s p ip = Inr (afterAddRecord s p ip)
       \<and> ptrRecords (afterAddRecord s p ip) = ptrRecords s
       \<and> (\<forall>r. GetPTRRecord (afterAddRecord s p ip) r = GetPTRRecord s r
              \<and> HasPTRRecord (afterAddRecord s p ip) r = HasPTRRecord s r)
       \<and> (ptrRecords s (IPString ip) = None
            \<longrightarrow> GetPTRRecord (afterAddRecord s p ip) (IPToReverseDNS ip) = ('''', False))"
proof -
  have a: "AddRecord s p ip = Inr (afterAddRecord s p ip)"
    by (simp add: afterAddRecord_def AddRecord_wildcard [OF assms])
  have b: "ptrRecords (afterAddRecord s p ip) = ptrRecords s"
    by (simp add: afterAddRecord_def AddRecord_wildcard [OF assms])
  have c: "GetPTRRecord (afterAddRecord s p ip) r = GetPTRRecord s r" for r
    by (simp add: GetPTRRecord_def b cong: option.case_cong)
  have d: "HasPTRRecord (afterAddRecord s p ip) r = HasPTRRecord s r" for r
    by (simp add: HasPTRRecord_def b cong: option.case_cong)
  have e: "GetPTRRecord (afterAddRecord s p ip) (IPToReverseDNS ip) = ('''', False)"
    if "ptrRecords s (IPString ip) = None"
    using that by (simp add: GetPTRRecord_reverse [OF assms(1)] b)
  show ?thesis using a b c d e by blast
qed

theorem C8_wildcard_add_keeps_PTR_witness:
  "AddRecord NewDNSRecordStore ''*.autoco.internal'' [10, 0, 0, 1]
     = Inr (afterAddRecord NewDNSRecordStore ''*.autoco.internal'' [10, 0, 0, 1])
   \<and> wildcards (afterAddRecord NewDNSRecordStore ''*.autoco.internal'' [10, 0, 0, 1])
       = [(''*.autoco.internal.'', \<lparr>A = [[10, 0, 0, 1]], AAAA = []\<rparr>)]
   \<and> GetPTRRecord (afterAddRecord NewDNSRecordStore ''*.autoco.internal'' [10, 0, 0, 1])
       ''1.0.0.10.in-addr.arpa.'' = ('''', False)"
proof -
  have v: "validIP [10, 0, 0, 1]" by (simp add: validIP_def To4_def)
  have w: "ContainsAny ''*.autoco.internal'' ''*?''" by (simp add: ContainsAny_def)
  have e: "ptrRecords NewDNSRecordStore (IPString [10, 0, 0, 1]) = None"
    by (simp add: NewDNSRecordStore_def)
  have r: "IPToReverseDNS [10, 0, 0, 1] = ''1.0.0.10.in-addr.arpa.''" by code_simp
  have ws: "wildcards (afterAddRecord NewDNSRecordStore ''*.autoco.internal'' [10, 0, 0, 1])
       = [(''*.autoco.internal.'', \<lparr>A = [[10, 0, 0, 1]], AAAA = []\<rparr>)]"
    by code_simp
  from C8_wildcard_add_keeps_PTR [OF v w, of NewDNSRecordStore] e
  have "AddRecord NewDNSRecordStore ''*.autoco.internal'' [10, 0, 0, 1]
          = Inr (afterAddRecord NewDNSRecordStore ''*.autoco.internal'' [10, 0, 0, 1])"
    and "GetPTRRecord (afterAddRecord NewDNSRecordStore ''*.autoco.internal'' [10, 0, 0, 1])
           (IPToReverseDNS [10, 0, 0, 1]) = ('''', False)"
    by blast+
  then show ?thesis using ws unfolding r by simp
qed

lemma normalizeDomain_empty: "normalizeDomain '''' = ''.''"
  by code_simp

lemma normalizeDomain_root: "normalizeDomain ''.'' = ''.''"
  by code_simp

lemma domainToPath_root: "domainToPath ''.'' = []"
  by code_simp

lemma query_empty_name: "ToLower (Fqdn '''') = ''.''"
  by code_simp

lemma exactRecords_empty_name:
  "exactRecords s '''' q = (case data (root s) of None \<Rightarrow> [] | Some rs \<Rightarrow> typedList q rs)"
  by (simp add: exactRecords_def query_empty_name domainToPath_root)

text \<open>
  C5 (as amended). The empty name is not rejected: it is normalized to the root name and the
  call is the same as for \<open>.\<close>. For a valid address the record is appended to the list of
  the trie root and the PTR entry of the address is set to the root name, so that the next
  query for the empty name returns the added address last.
\<close>

theorem C5_empty_name_is_root:
  assumes "validIP ip"
  shows "AddRecord s '''' ip = AddRecord s ''.'' ip
       \<and> AddRecord s '''' ip =
           Inr (s\<lparr>root := addAtPath (root s) [] (To4 ip \<noteq> None) ip,
                  ptrRecords := (ptrRecords s)(IPString ip \<mapsto> ''.'')\<rparr>)
       \<and> GetRecords (afterAddRecord s '''' ip) ''''
            (if To4 ip \<noteq> None then RecordTypeA else RecordTypeAAAA)
           = exactRecords s '''' (if To4 ip \<noteq> None then RecordTypeA else RecordTypeAAAA) @ [ip]
       \<and> HasRecord (afterAddRecord s '''' ip) ''''
            (if To4 ip \<noteq> None then RecordTypeA else RecordTypeAAAA)
       \<and> GetPTRRecord (afterAddRecord s '''' ip) (IPToReverseDNS ip) = (''.'', True)"
proof -
  let ?q = "if To4 ip \<noteq> None then RecordTypeA else RecordTypeAAAA"
  have nw: "\<not> ContainsAny '''' ''*?''" "\<not> ContainsAny ''.'' ''*?''"
    by (simp_all add: ContainsAny_def)
  have ne: "RecordTypeA \<noteq> RecordTypeAAAA" by (simp add: RecordTypeA_def RecordTypeAAAA_def)
  have q: "?q = RecordTypeA \<or> ?q = RecordTypeAAAA" by simp
  have a1: "AddRecord s '''' ip =
           Inr (s\<lparr>root := addAtPath (root s) [] (To4 ip \<noteq> None) ip,
                  ptrRecords := (ptrRecords s)(IPString ip \<mapsto> ''.'')\<rparr>)"
    using AddRecord_exact [OF assms nw(1), of s]
    by (simp add: normalizeDomain_empty domainToPath_root)
  have a2: "AddRecord s ''.'' ip =
           Inr (s\<lparr>root := addAtPath (root s) [] (To4 ip \<noteq> None) ip,
                  ptrRecords := (ptrRecords s)(IPString ip \<mapsto> ''.'')\<rparr>)"
    using AddRecord_exact [OF assms nw(2), of s]
    by (simp add: normalizeDomain_root domainToPath_root)
  have after: "afterAddRecord s '''' ip =
           s\<lparr>root := addAtPath (root s) [] (To4 ip \<noteq> None) ip,
             ptrRecords := (ptrRecords s)(IPString ip \<mapsto> ''.'')\<rparr>"
    by (simp add: afterAddRecord_def a1)
  have ex: "exactRecords (afterAddRecord s '''' ip) '''' ?q = exactRecords s '''' ?q @ [ip]"
    using ne unfolding exactRecords_empty_name after
    by (auto simp: Let_def typedList_def split: option.splits)
  then have g: "GetRecords (afterAddRecord s '''' ip) '''' ?q = exactRecords s '''' ?q @ [ip]"
    unfolding GetRecords_eq by simp
  have h: "HasRecord (afterAddRecord s '''' ip) '''' ?q"
    unfolding HasRecord_eq [OF q] ex by simp
  have p: "GetPTRRecord (afterAddRecord s '''' ip) (IPToReverseDNS ip) = (''.'', True)"
    by (simp add: GetPTRRecord_reverse [OF assms] after)
  show ?thesis using a1 a2 g h p by simp
qed

theorem C5_empty_name_is_root_witness:
  "AddRecord NewDNSRecordStore '''' [10, 0, 0, 1] = AddRecord NewDNSRecordStore ''.'' [10, 0, 0, 1]
   \<and> GetRecords (afterAddRecord NewDNSRecordStore '''' [10, 0, 0, 1]) '''' RecordTypeA
       = [[10, 0, 0, 1]]
   \<and> HasRecord (afterAddRecord NewDNSRecordStore '''' [10, 0, 0, 1]) '''' RecordTypeA
   \<and> GetPTRRecord (afterAddRecord NewDNSRecordStore '''' [10, 0, 0, 1]) ''1.0.0.10.in-addr.arpa.''
       = (''.'', True)"
proof -
  have v: "validIP [10, 0, 0, 1]" by (simp add: validIP_def To4_def)
  have t: "To4 [10, 0, 0, 1] \<noteq> None" by (simp add: To4_def)
  have r: "IPToReverseDNS [10, 0, 0, 1] = ''1.0.0.10.in-addr.arpa.''" by code_simp
  have e: "exactRecords NewDNSRecordStore '''' RecordTypeA = []"
    by (simp add: exactRecords_empty_name NewDNSRecordStore_def)
  show ?thesis
    using C5_empty_name_is_root [OF v, of NewDNSRecordStore] t e unfolding r by simp
qed

theorem C5_empty_name_counterexample:
  "GetRecords NewDNSRecordStore '''' RecordTypeA = []
   \<and> GetRecords (afterAddRecord NewDNSRecordStore '''' [10, 0, 0, 1]) '''' RecordTypeA
       = [[10, 0, 0, 1]]
   \<and> HasRecord (afterAddRecord NewDNSRecordStore '''' [10, 0, 0, 1]) '''' RecordTypeA"
  by code_simp

section \<open>GetRecords and HasRecord\<close>

lemma scenarioS1_exact:
  "exactRecords scenarioS1 ''exact.autoco.internal.'' RecordTypeA = [[10, 0, 0, 2]]"
  "exactRecords scenarioS1 ''host.autoco.internal.'' RecordTypeA = []"
  "exactRecords scenarioS1 ''autoco.internal.'' RecordTypeA = []"
  "exactRecords scenarioS1 ''host.autoco.internal.'' RecordTypePTR = []"
  unfolding scenarioS1_def by code_simp+

lemma scenarioS1_wildcards:
  "matchingWildcards scenarioS1 ''host.autoco.internal.''
     = [(''*.autoco.internal.'', \<lparr>A = [[10, 0, 0, 1]], AAAA = []\<rparr>)]"
  "matchingWildcards scenarioS1 ''autoco.internal.'' = []"
  "distinct (map fst (wildcards scenarioS1))"
  unfolding scenarioS1_def by code_simp+



lemma exactRecords_dataAt:
  assumes "ToLower (Fqdn d') = normalizeDomain d"
  shows "exactRecords t d' q =
           (case dataAt (root t) (domainToPath (normalizeDomain d)) of
              None \<Rightarrow> []
            | Some rs \<Rightarrow> typedList q rs)"
  using assms by (simp add: exactRecords_def dataAt_def split: option.splits)


lemma exactRecords_New [simp]: "exactRecords NewDNSRecordStore d q = []"
  using dataAt_fresh [of "domainToPath (ToLower (Fqdn d))"]
  by (simp add: exactRecords_def NewDNSRecordStore_def dataAt_def split: option.splits)



text \<open>
  C7. For the types A and AAAA \<^verbatim>\<open>HasRecord\<close> is true exactly when \<^verbatim>\<open>GetRecords\<close> returns
  a non-empty list.
\<close>

theorem C7_HasRecord_iff_GetRecords:
  assumes "q = RecordTypeA \<or> q = RecordTypeAAAA"
  shows "HasRecord s d q = (0 < length (GetRecords s d q))"
  unfolding HasRecord_eq [OF assms] GetRecords_eq
  by (force simp: list_ex_iff)

theorem C7_HasRecord_iff_GetRecords_witness:
  "HasRecord scenarioS1 ''host.autoco.internal.'' RecordTypeA
   \<and> GetRecords scenarioS1 ''host.autoco.internal.'' RecordTypeA = [[10, 0, 0, 1]]
   \<and> \<not> HasRecord scenarioS1 ''autoco.internal.'' RecordTypeA
   \<and> GetRecords scenarioS1 ''autoco.internal.'' RecordTypeA = []"
proof -
  have q: "RecordTypeA = RecordTypeA \<or> RecordTypeA = RecordTypeAAAA" by simp
  have g1: "GetRecords scenarioS1 ''host.autoco.internal.'' RecordTypeA = [[10, 0, 0, 1]]"
    unfolding GetRecords_eq scenarioS1_exact scenarioS1_wildcards by (simp add: typedList_def)
  have g2: "GetRecords scenarioS1 ''autoco.internal.'' RecordTypeA = []"
    unfolding GetRecords_eq scenarioS1_exact scenarioS1_wildcards by simp
  show ?thesis
    using C7_HasRecord_iff_GetRecords [OF q, of scenarioS1 "''host.autoco.internal.''"]
      C7_HasRecord_iff_GetRecords [OF q, of scenarioS1 "''autoco.internal.''"] g1 g2
    by simp
qed




section \<open>State invariants\<close>

lemma list_all_update:
  "list_all P al \<Longrightarrow> P (k, v) \<Longrightarrow> list_all P (AList.update k v al)"
  by (induction al) auto

lemma list_all_delete: "list_all P al \<Longrightarrow> list_all P (AList.delete k al)"
  by (induction al) auto

lemma list_all_map_of: "list_all P al \<Longrightarrow> map_of al k = Some v \<Longrightarrow> P (k, v)"
  by (auto simp: list_all_iff dest: map_of_SomeD)

lemma update_not_Nil [simp]: "AList.update k v al \<noteq> []"
  by (cases al) auto

lemma nonEmpty_appendIP [simp]: "nonEmptyRecordSet (Some (appendIP v ip d))"
  by (auto simp: nonEmptyRecordSet_def appendIP_def Let_def)

lemma addAtPath_Nil: "addAtPath node [] v ip = TrieNode (children node) (Some (appendIP v ip (data node)))"
  by (simp add: appendIP_def Let_def)

lemma recordSetsNonEmpty_addAtPath:
  "recordSetsNonEmpty t \<Longrightarrow> recordSetsNonEmpty (addAtPath t p v ip)"
proof (induction p arbitrary: t)
  case Nil
  then show ?case by (cases t) (simp add: addAtPath_Nil del: addAtPath.simps)
next
  case (Cons l p)
  obtain cs d where t: "t = TrieNode cs d" by (cases t)
  have c: "recordSetsNonEmpty (case map_of cs l of None \<Rightarrow> TrieNode [] None | Some c \<Rightarrow> c)"
    using Cons.prems t list_all_map_of [of "\<lambda>lc. recordSetsNonEmpty (snd lc)" cs l]
    by (auto split: option.splits)
  show ?case
    using Cons.prems t Cons.IH [OF c]
    by (simp add: Let_def list_all_update)
qed

lemma recordSetsNonEmpty_setData:
  "recordSetsNonEmpty t \<Longrightarrow> d = None \<or> nonEmptyRecordSet d \<Longrightarrow> recordSetsNonEmpty (setData t p d)"
proof (induction p arbitrary: t)
  case Nil
  then show ?case by (cases t) auto
next
  case (Cons l p)
  obtain cs d0 where t: "t = TrieNode cs d0" by (cases t)
  show ?case
  proof (cases "map_of cs l")
    case None
    then show ?thesis using Cons.prems t by simp
  next
    case (Some c)
    then have "recordSetsNonEmpty c"
      using Cons.prems(1) t list_all_map_of [of "\<lambda>lc. recordSetsNonEmpty (snd lc)" cs l c] by simp
    then show ?thesis
      using Cons.prems t Some Cons.IH [of c] by (simp add: list_all_update)
  qed
qed

lemma usefulNode_addAtPath: "usefulNode (addAtPath t p v ip)"
  by (cases p) (simp_all add: usefulNode_def addAtPath_Nil Let_def del: addAtPath.simps(1))

lemma nodesUseful_addAtPath:
  "nodesUseful t \<Longrightarrow> nodesUseful (addAtPath t p v ip)"
proof (induction p arbitrary: t)
  case Nil
  then show ?case by (cases t) (simp add: addAtPath_Nil del: addAtPath.simps)
next
  case (Cons l p)
  obtain cs d where t: "t = TrieNode cs d" by (cases t)
  have c: "nodesUseful (case map_of cs l of None \<Rightarrow> TrieNode [] None | Some c \<Rightarrow> c)"
    using Cons.prems t
      list_all_map_of [of "\<lambda>lc. usefulNode (snd lc) \<and> nodesUseful (snd lc)" cs l]
    by (auto split: option.splits)
  show ?case
    using Cons.prems t Cons.IH [OF c] usefulNode_addAtPath
    by (simp add: Let_def list_all_update)
qed

lemma afterAddRecord_cases:
  "(\<not> validIP ip \<and> afterAddRecord s d ip = s)
   \<or> (validIP ip \<and> ContainsAny d ''*?''
       \<and> afterAddRecord s d ip =
           s\<lparr>wildcards :=
               AList.update (normalizeDomain d)
                 (appendIP (To4 ip \<noteq> None) ip (map_of (wildcards s) (normalizeDomain d)))
                 (wildcards s)\<rparr>)
   \<or> (validIP ip \<and> \<not> ContainsAny d ''*?''
       \<and> afterAddRecord s d ip =
           s\<lparr>root := addAtPath (root s) (domainToPath (normalizeDomain d)) (To4 ip \<noteq> None) ip,
             ptrRecords := (ptrRecords s)(IPString ip \<mapsto> normalizeDomain d)\<rparr>)"
proof (cases "validIP ip")
  case False
  then show ?thesis by (simp add: afterAddRecord_def AddRecord_invalid)
next
  case True
  show ?thesis
  proof (cases "ContainsAny d ''*?''")
    case w: True
    show ?thesis using True w by (simp add: afterAddRecord_def AddRecord_wildcard)
  next
    case w: False
    show ?thesis using True w by (simp add: afterAddRecord_def AddRecord_exact)
  qed
qed

lemma appendIP_nonEmpty: "A (appendIP v ip d) \<noteq> [] \<or> AAAA (appendIP v ip d) \<noteq> []"
  by (auto simp: appendIP_def Let_def)

lemma AddRecord_recordSets:
  assumes "recordSetsNonEmpty (root s)" and "wildcardsNonEmpty s"
  shows "recordSetsNonEmpty (root (afterAddRecord s d ip)) \<and> wildcardsNonEmpty (afterAddRecord s d ip)"
  using afterAddRecord_cases [of ip s d] assms appendIP_nonEmpty
  by (auto simp: wildcardsNonEmpty_def recordSetsNonEmpty_addAtPath intro!: list_all_update)

lemma AddRecord_nodes:
  assumes "nodesUseful (root s)"
  shows "nodesUseful (root (afterAddRecord s d ip))"
  using afterAddRecord_cases [of ip s d] assms
  by (auto simp: nodesUseful_addAtPath)

lemma RemoveRecord_recordSets:
  assumes "recordSetsNonEmpty (root s)" and "wildcardsNonEmpty s"
  shows "recordSetsNonEmpty (root (RemoveRecord s d ipOpt))
       \<and> wildcardsNonEmpty (RemoveRecord s d ipOpt)"
proof (cases "ContainsAny d ''*?''")
  case True
  then show ?thesis
    using assms
    by (auto simp: RemoveRecord_def Let_def wildcardsNonEmpty_def
        intro!: list_all_update list_all_delete split: option.splits)
next
  case False
  have w: "wildcards (RemoveRecord s d ipOpt) = wildcards s"
    using False by (auto simp: RemoveRecord_def Let_def split: option.splits)
  have "recordSetsNonEmpty (root (RemoveRecord s d ipOpt))"
    using False assms(1)
    by (auto simp: RemoveRecord_def Let_def nonEmptyRecordSet_def
        intro!: recordSetsNonEmpty_setData split: option.splits)
  then show ?thesis using w assms(2) by (simp add: wildcardsNonEmpty_def)
qed

text \<open>
  C9 (as amended). The empty store satisfies the three invariants. No record set with two
  empty lists and no wildcard entry without an address are preserved by every mutator. That
  every node below the root has children or a non-empty record set is preserved by
  \<^verbatim>\<open>AddRecord\<close>, \<^verbatim>\<open>AddPTRRecord\<close>, \<^verbatim>\<open>RemovePTRRecord\<close> and \<^verbatim>\<open>Clear\<close>.
\<close>

theorem C9_invariants:
  "invariants NewDNSRecordStore
   \<and> (recordSetsNonEmpty (root s) \<and> wildcardsNonEmpty s \<longrightarrow>
        recordSetsNonEmpty (root (afterAddRecord s d ip)) \<and> wildcardsNonEmpty (afterAddRecord s d ip)
        \<and> recordSetsNonEmpty (root (AddPTRRecord s ip d)) \<and> wildcardsNonEmpty (AddPTRRecord s ip d)
        \<and> recordSetsNonEmpty (root (RemoveRecord s d ipOpt))
        \<and> wildcardsNonEmpty (RemoveRecord s d ipOpt)
        \<and> recordSetsNonEmpty (root (RemovePTRRecord s ip))
        \<and> wildcardsNonEmpty (RemovePTRRecord s ip)
        \<and> recordSetsNonEmpty (root (Clear s)) \<and> wildcardsNonEmpty (Clear s))
   \<and> (nodesUseful (root s) \<longrightarrow>
        nodesUseful (root (afterAddRecord s d ip)) \<and> nodesUseful (root (AddPTRRecord s ip d))
        \<and> nodesUseful (root (RemovePTRRecord s ip)) \<and> nodesUseful (root (Clear s)))
   \<and> (invariants s \<longrightarrow>
        invariants (afterAddRecord s d ip) \<and> invariants (AddPTRRecord s ip d)
        \<and> invariants (RemovePTRRecord s ip) \<and> invariants (Clear s))"
proof -
  have new: "invariants NewDNSRecordStore"
    by (simp add: invariants_def NewDNSRecordStore_def wildcardsNonEmpty_def)
  have simple: "root (AddPTRRecord s ip d) = root s" "wildcards (AddPTRRecord s ip d) = wildcards s"
    "root (RemovePTRRecord s ip) = root s" "wildcards (RemovePTRRecord s ip) = wildcards s"
    "root (Clear s) = TrieNode [] None" "wildcards (Clear s) = []"
    by (simp_all add: AddPTRRecord_def RemovePTRRecord_def Clear_def Let_def)
  have rs: "recordSetsNonEmpty (root (afterAddRecord s d ip)) \<and> wildcardsNonEmpty (afterAddRecord s d ip)
        \<and> recordSetsNonEmpty (root (AddPTRRecord s ip d)) \<and> wildcardsNonEmpty (AddPTRRecord s ip d)
        \<and> recordSetsNonEmpty (root (RemoveRecord s d ipOpt))
        \<and> wildcardsNonEmpty (RemoveRecord s d ipOpt)
        \<and> recordSetsNonEmpty (root (RemovePTRRecord s ip))
        \<and> wildcardsNonEmpty (RemovePTRRecord s ip)
        \<and> recordSetsNonEmpty (root (Clear s)) \<and> wildcardsNonEmpty (Clear s)"
    if "recordSetsNonEmpty (root s) \<and> wildcardsNonEmpty s"
    using that AddRecord_recordSets [of s d ip] RemoveRecord_recordSets [of s d ipOpt]
    by (simp add: simple wildcardsNonEmpty_def)
  have nodes: "nodesUseful (root (afterAddRecord s d ip)) \<and> nodesUseful (root (AddPTRRecord s ip d))
        \<and> nodesUseful (root (RemovePTRRecord s ip)) \<and> nodesUseful (root (Clear s))"
    if "nodesUseful (root s)"
    using that AddRecord_nodes [of s d ip] by (simp add: simple)
  have inv: "invariants (afterAddRecord s d ip) \<and> invariants (AddPTRRecord s ip d)
        \<and> invariants (RemovePTRRecord s ip) \<and> invariants (Clear s)"
    if "invariants s"
    using that rs nodes unfolding invariants_def by blast
  show ?thesis using new rs nodes inv by blast
qed

theorem C9_invariants_witness:
  "invariants NewDNSRecordStore
   \<and> invariants (afterAddRecord NewDNSRecordStore ''a.'' [10, 0, 0, 1])
   \<and> recordSetsNonEmpty
       (root (RemoveRecord (afterAddRecord NewDNSRecordStore ''a.'' [10, 0, 0, 1]) ''a.''
                (Some [10, 0, 0, 1])))
   \<and> wildcardsNonEmpty
       (RemoveRecord (afterAddRecord NewDNSRecordStore ''a.'' [10, 0, 0, 1]) ''a.''
          (Some [10, 0, 0, 1]))"
proof -
  have a: "invariants NewDNSRecordStore"
    using C9_invariants [of NewDNSRecordStore "''a.''" "[10, 0, 0, 1]" "Some [10, 0, 0, 1]"]
    by blast
  then have b: "invariants (afterAddRecord NewDNSRecordStore ''a.'' [10, 0, 0, 1])"
    using C9_invariants [of NewDNSRecordStore "''a.''" "[10, 0, 0, 1]" "Some [10, 0, 0, 1]"]
    by blast
  then have c: "recordSetsNonEmpty (root (afterAddRecord NewDNSRecordStore ''a.'' [10, 0, 0, 1]))
                \<and> wildcardsNonEmpty (afterAddRecord NewDNSRecordStore ''a.'' [10, 0, 0, 1])"
    by (simp add: invariants_def)
  show ?thesis
    using a b c
      C9_invariants [of "afterAddRecord NewDNSRecordStore ''a.'' [10, 0, 0, 1]" "''a.''"
        "[10, 0, 0, 1]" "Some [10, 0, 0, 1]"]
    by blast
qed

theorem C9_unpruned_node_counterexample:
  "invariants (afterAddRecord NewDNSRecordStore ''a.'' [10, 0, 0, 1])
   \<and> root (RemoveRecord (afterAddRecord NewDNSRecordStore ''a.'' [10, 0, 0, 1]) ''a.''
            (Some [10, 0, 0, 1]))
       = TrieNode [(''a'', TrieNode [] None)] None
   \<and> \<not> invariants
         (RemoveRecord (afterAddRecord NewDNSRecordStore ''a.'' [10, 0, 0, 1]) ''a.''
            (Some [10, 0, 0, 1]))"
  by code_simp

section \<open>The two stores after the same calls\<close>

lemma trieRS_simps [simp]:
  "trieRS (t\<lparr>wildcards := w\<rparr>) n = trieRS t n"
  "trieRS (t\<lparr>ptrRecords := p\<rparr>) n = trieRS t n"
  by (simp_all add: trieRS_def)

lemma normalizeDomain_idem [simp]: "normalizeDomain (normalizeDomain d) = normalizeDomain d"
proof -
  have "normalizeDomain d \<noteq> []" "last (normalizeDomain d) = CHR ''.''"
    using normalizeDomain_ends_dot [of d] by simp_all
  then show ?thesis
    by (subst (1) normalizeDomain_def) simp
qed

lemma trieRS_add:
  "trieRS (t\<lparr>root := addAtPath (root t) (domainToPath (normalizeDomain d)) v ip\<rparr>)
      (normalizeDomain d')
   = (if normalizeDomain d' = normalizeDomain d
      then Some (appendIP v ip (trieRS t (normalizeDomain d)))
      else trieRS t (normalizeDomain d'))"
proof (cases "normalizeDomain d' = normalizeDomain d")
  case True
  then show ?thesis by (simp add: trieRS_def dataAt_addAtPath_same)
next
  case False
  then have "domainToPath (normalizeDomain d') \<noteq> domainToPath (normalizeDomain d)"
    using domainToPath_inj by blast
  then show ?thesis using False by (simp add: trieRS_def dataAt_addAtPath_other)
qed

lemma trieRS_setData:
  assumes "trieRS t (normalizeDomain d) = Some rs"
  shows "trieRS (t\<lparr>root := setData (root t) (domainToPath (normalizeDomain d)) x\<rparr>)
           (normalizeDomain d')
         = (if normalizeDomain d' = normalizeDomain d then x else trieRS t (normalizeDomain d'))"
proof (cases "normalizeDomain d' = normalizeDomain d")
  case True
  have "walk (root t) (domainToPath (normalizeDomain d)) \<noteq> None"
    using assms walk_Some_if_dataAt by (simp add: trieRS_def)
  then show ?thesis using True by (simp add: trieRS_def dataAt_setData_same)
next
  case False
  then have "domainToPath (normalizeDomain d') \<noteq> domainToPath (normalizeDomain d)"
    using domainToPath_inj by blast
  then show ?thesis using False by (simp add: trieRS_def dataAt_setData_other)
qed

lemma fold_deletePTRIfOwned:
  "fold (\<lambda>ipAddr ptr. deletePTRIfOwned ptr ipAddr n) ips ptr
   = (\<lambda>k. if k \<in> IPString ` set ips \<and> ptr k = Some n then None else ptr k)"
proof (induction ips arbitrary: ptr)
  case Nil
  then show ?case by simp
next
  case (Cons ip ips)
  show ?case
    unfolding fold_Cons comp_def Cons.IH
    by (rule ext) (auto simp: deletePTRIfOwned_def)
qed

lemma deletePTRIfOwned_eq:
  "deletePTRIfOwned ptr ip n = (\<lambda>k. if k = IPString ip \<and> ptr k = Some n then None else ptr k)"
  by (rule ext) (auto simp: deletePTRIfOwned_def)

lemma Equal_IPString:
  assumes "Equal a b" and "validIP a"
  shows "IPString a = IPString b \<and> validIP b"
proof -
  from assms(2) have la: "length a = 4 \<or> length a = 16" by (simp add: validIP_length)
  show ?thesis
  proof (cases "length a = length b")
    case True
    then show ?thesis using assms by (simp add: Equal_def)
  next
    case False
    show ?thesis
    proof (cases "length a = 4")
      case True
      with False assms(1) have lb: "length b = 16" and p: "take 12 b = v4InV6Prefix" and d: "a = drop 12 b"
        by (auto simp: Equal_def split: if_splits)
      have "To16 a = Some b" using True p d by (simp add: To16_def) (metis append_take_drop_id)
      then show ?thesis using IPString_To16 lb by (auto simp: validIP_length)
    next
      case F: False
      with la have la16: "length a = 16" by simp
      with False assms(1) have lb: "length b = 4" and p: "take 12 a = v4InV6Prefix" and d: "drop 12 a = b"
        by (auto simp: Equal_def split: if_splits)
      have "To16 b = Some a" using lb p d by (simp add: To16_def) (metis append_take_drop_id)
      then show ?thesis using IPString_To16 lb by (auto simp: validIP_length)
    qed
  qed
qed

lemma Equal_invalid:
  assumes "validIP a" and "\<not> validIP b"
  shows "\<not> Equal a b"
  using assms by (auto simp: validIP_length Equal_def)

lemma nonEmptyList_simps [simp]:
  "nonEmptyList [] = None" "l \<noteq> [] \<Longrightarrow> nonEmptyList l = Some l"
  "nonEmptyList (l @ [x]) = Some (l @ [x])"
  "sliceOf (nonEmptyList l) = l" "sliceOf None = []" "sliceOf (Some l) = l"
  "nonEmptyList l = None \<longleftrightarrow> l = []"
  "nonEmptyList l = Some l' \<longleftrightarrow> l = l' \<and> l' \<noteq> []"
  by (auto simp: nonEmptyList_def sliceOf_def)

lemma listA_simps [simp]:
  "listA None = None" "listAAAA None = None"
  "listA (Some rs) = nonEmptyList (A rs)" "listAAAA (Some rs) = nonEmptyList (AAAA rs)"
  by (simp_all add: listA_def listAAAA_def)

lemma listA_appendIP [simp]:
  "listA (Some (appendIP True ip d)) = Some (sliceOf (listA d) @ [ip])"
  "listAAAA (Some (appendIP True ip d)) = listAAAA d"
  "listA (Some (appendIP False ip d)) = listA d"
  "listAAAA (Some (appendIP False ip d)) = Some (sliceOf (listAAAA d) @ [ip])"
  by (cases d; simp add: appendIP_def Let_def)+

lemma appendIP_lists [simp]:
  "A (appendIP True ip d) = sliceOf (listA d) @ [ip]"
  "AAAA (appendIP True ip d) = sliceOf (listAAAA d)"
  "A (appendIP False ip d) = sliceOf (listA d)"
  "AAAA (appendIP False ip d) = sliceOf (listAAAA d) @ [ip]"
  by (cases d; simp add: appendIP_def Let_def)+

lemma nonEmptyList_sliceOf [simp]:
  "nonEmptyList (sliceOf (listA d)) = listA d"
  "nonEmptyList (sliceOf (listAAAA d)) = listAAAA d"
  by (cases d; simp add: nonEmptyList_def sliceOf_def)+

lemma goodRS_appendIP:
  assumes "\<And>rs. d = Some rs \<Longrightarrow> goodRS rs"
    and "v \<Longrightarrow> To4 ip \<noteq> None" and "\<not> v \<Longrightarrow> To4 ip = None \<and> length ip = 16"
  shows "goodRS (appendIP v ip d)"
  using assms by (cases d; cases v) (auto simp: goodRS_def appendIP_def Let_def)

lemma set_appendIP:
  "ipx \<in> set (A (appendIP v ip d)) \<or> ipx \<in> set (AAAA (appendIP v ip d)) \<longleftrightarrow>
     ipx = ip \<or> (\<exists>rs. d = Some rs \<and> (ipx \<in> set (A rs) \<or> ipx \<in> set (AAAA rs)))"
  by (cases d; cases v) (auto simp: appendIP_def Let_def)

lemma owner_family:
  assumes "invGood t" and "invPtr t" and "ptrRecords t (IPString ip) = Some n"
  shows "validIP ip \<and> (\<exists>d rs. n = normalizeDomain d \<and> trieRS t n = Some rs
           \<and> (if To4 ip \<noteq> None then A rs \<noteq> [] else AAAA rs \<noteq> []))"
proof -
  from assms(2,3) obtain d rs ip' where n: "n = normalizeDomain d" and rs: "trieRS t n = Some rs"
    and mem: "ip' \<in> set (A rs) \<or> ip' \<in> set (AAAA rs)" and str: "IPString ip' = IPString ip"
    unfolding invPtr_def by blast
  have good: "goodRS rs" using assms(1) rs n unfolding invGood_def by blast
  from mem show ?thesis
  proof
    assume a: "ip' \<in> set (A rs)"
    then have v4: "To4 ip' \<noteq> None" using good by (auto simp: goodRS_def list_all_iff)
    have c: "CHR ''.'' \<in> set (IPString ip)" "CHR ''?'' \<notin> set (IPString ip)"
      "CHR ''<'' \<notin> set (IPString ip)"
      using IPString_v4 [OF v4] str by simp_all
    have valid: "validIP ip" using IPString_invalid [of ip] c by blast
    have "To4 ip \<noteq> None"
    proof
      assume "To4 ip = None"
      moreover from this valid have "length ip = 16" by (auto simp: validIP_length To4_def)
      ultimately show False using IPString_v6(1) c(1) by blast
    qed
    then show ?thesis using valid n rs a by auto
  next
    assume a: "ip' \<in> set (AAAA rs)"
    then have v6: "To4 ip' = None" "length ip' = 16"
      using good by (auto simp: goodRS_def list_all_iff)
    have c: "CHR ''.'' \<notin> set (IPString ip)" "CHR ''?'' \<notin> set (IPString ip)"
      "CHR ''<'' \<notin> set (IPString ip)"
      using IPString_v6 [OF v6] str by simp_all
    have valid: "validIP ip" using IPString_invalid [of ip] c by blast
    have "To4 ip = None" using IPString_v4(1) [of ip] c(1) by blast
    then show ?thesis using valid n rs a by auto
  qed
qed

text \<open>A change of the record set of one exact name and of the PTR map, on both stores.\<close>

lemma simRel_exact_update:
  assumes sim: "simRel t f"
    and t1: "\<And>d'. trieRS t' (normalizeDomain d') =
               (if normalizeDomain d' = normalizeDomain d then x else trieRS t (normalizeDomain d'))"
    and t2: "wildcards t' = wildcards t" and t3: "ptrRecords t' = ptr'"
    and f1: "aRecords f' = (aRecords f)(normalizeDomain d := listA x)"
    and f2: "aaaaRecords f' = (aaaaRecords f)(normalizeDomain d := listAAAA x)"
    and f3: "aWildcards f' = aWildcards f" and f4: "aaaaWildcards f' = aaaaWildcards f"
    and f5: "flatPtrRecords f' = ptr'"
    and good: "\<And>rs. x = Some rs \<Longrightarrow> goodRS rs"
    and own: "\<And>k n'. ptr' k = Some n' \<Longrightarrow>
               (if n' = normalizeDomain d
                then \<exists>rs ip. x = Some rs \<and> (ip \<in> set (A rs) \<or> ip \<in> set (AAAA rs))
                             \<and> IPString ip = k
                else ptrRecords t k = Some n')"
  shows "simRel t' f'"
proof -
  from sim have re: "relExact t f" and rw: "relWild t f" and ig: "invGood t" and ip: "invPtr t"
    by (simp_all add: simRel_def)
  have "relExact t' f'"
    using re unfolding relExact_def t1 f1 f2 by simp
  moreover have "relWild t' f'"
    using rw unfolding relWild_def t2 f3 f4 .
  moreover have "invGood t'"
    using ig good unfolding invGood_def t1 t2 by (auto split: if_splits)
  moreover have "invPtr t'"
    unfolding invPtr_def
  proof (intro allI impI)
    fix k n' assume a: "ptrRecords t' k = Some n'"
    show "\<exists>d0 rs ip. n' = normalizeDomain d0 \<and> trieRS t' n' = Some rs
            \<and> (ip \<in> set (A rs) \<or> ip \<in> set (AAAA rs)) \<and> IPString ip = k"
    proof (cases "n' = normalizeDomain d")
      case True
      with own [of k n'] a t3 obtain rs ip where "x = Some rs"
        "ip \<in> set (A rs) \<or> ip \<in> set (AAAA rs)" "IPString ip = k" by auto
      moreover have "trieRS t' n' = x" using t1 [of d] True by simp
      ultimately show ?thesis using True by blast
    next
      case False
      with own [of k n'] a t3 have "ptrRecords t k = Some n'" by auto
      with ip obtain d0 rs ip where w: "n' = normalizeDomain d0" "trieRS t n' = Some rs"
        "ip \<in> set (A rs) \<or> ip \<in> set (AAAA rs)" "IPString ip = k"
        unfolding invPtr_def by blast
      have "trieRS t' n' = trieRS t n'" using t1 [of d0] w(1) False by simp
      then show ?thesis using w by auto
    qed
  qed
  ultimately show ?thesis using t3 f5 by (simp add: simRel_def)
qed

text \<open>A change of one wildcard entry, on both stores.\<close>

lemma simRel_wild_update:
  assumes sim: "simRel t f"
    and t1: "map_of (wildcards t') = (map_of (wildcards t))(p := x)"
    and t2: "distinct (map fst (wildcards t'))"
    and t3: "root t' = root t" and t4: "ptrRecords t' = ptrRecords t"
    and f1: "map_of (aWildcards f') = (map_of (aWildcards f))(p := listA x)"
    and f2: "map_of (aaaaWildcards f') = (map_of (aaaaWildcards f))(p := listAAAA x)"
    and f3: "distinct (map fst (aWildcards f'))" and f4: "distinct (map fst (aaaaWildcards f'))"
    and f5: "aRecords f' = aRecords f" and f6: "aaaaRecords f' = aaaaRecords f"
    and f7: "flatPtrRecords f' = flatPtrRecords f"
    and good: "\<And>rs. x = Some rs \<Longrightarrow> goodRS rs"
  shows "simRel t' f'"
proof -
  from sim have re: "relExact t f" and rw: "relWild t f" and ig: "invGood t" and ip: "invPtr t"
    and pe: "flatPtrRecords f = ptrRecords t"
    by (simp_all add: simRel_def)
  have tr: "trieRS t' = trieRS t" by (rule ext) (simp add: trieRS_def t3)
  have "relExact t' f'" using re unfolding relExact_def tr f5 f6 .
  moreover have "relWild t' f'"
    using rw t2 f3 f4 unfolding relWild_def t1 f1 f2 by simp
  moreover have "invGood t'"
    using ig good unfolding invGood_def tr t1 by (auto split: if_splits)
  moreover have "invPtr t'" using ip unfolding invPtr_def tr t4 .
  ultimately show ?thesis using pe t4 f7 by (simp add: simRel_def)
qed

lemma flatAfterAddRecord_cases:
  "(\<not> validIP ip \<and> flatAfterAddRecord f d ip = f)
   \<or> (validIP ip \<and> ContainsAny d ''*?'' \<and> To4 ip \<noteq> None
       \<and> flatAfterAddRecord f d ip =
           f\<lparr>aWildcards :=
               AList.update (normalizeDomain d)
                 (sliceOf (map_of (aWildcards f) (normalizeDomain d)) @ [ip]) (aWildcards f)\<rparr>)
   \<or> (validIP ip \<and> ContainsAny d ''*?'' \<and> To4 ip = None
       \<and> flatAfterAddRecord f d ip =
           f\<lparr>aaaaWildcards :=
               AList.update (normalizeDomain d)
                 (sliceOf (map_of (aaaaWildcards f) (normalizeDomain d)) @ [ip])
                 (aaaaWildcards f)\<rparr>)
   \<or> (validIP ip \<and> \<not> ContainsAny d ''*?'' \<and> To4 ip \<noteq> None
       \<and> flatAfterAddRecord f d ip =
           f\<lparr>aRecords := (aRecords f)(normalizeDomain d \<mapsto>
                            sliceOf (aRecords f (normalizeDomain d)) @ [ip]),
             flatPtrRecords := (flatPtrRecords f)(IPString ip \<mapsto> normalizeDomain d)\<rparr>)
   \<or> (validIP ip \<and> \<not> ContainsAny d ''*?'' \<and> To4 ip = None
       \<and> flatAfterAddRecord f d ip =
           f\<lparr>aaaaRecords := (aaaaRecords f)(normalizeDomain d \<mapsto>
                            sliceOf (aaaaRecords f (normalizeDomain d)) @ [ip]),
             flatPtrRecords := (flatPtrRecords f)(IPString ip \<mapsto> normalizeDomain d)\<rparr>)"
proof (cases "validIP ip")
  case False
  then show ?thesis by (simp add: flatAfterAddRecord_def flatAddRecord_def validIP_def Let_def)
next
  case True
  show ?thesis
  proof (cases "To4 ip = None")
    case t: True
    with True have "To16 ip \<noteq> None" by (simp add: validIP_def)
    then show ?thesis using True t
      by (cases "ContainsAny d ''*?''") (simp_all add: flatAfterAddRecord_def flatAddRecord_def Let_def)
  next
    case t: False
    then show ?thesis using True
      by (cases "ContainsAny d ''*?''") (simp_all add: flatAfterAddRecord_def flatAddRecord_def Let_def)
  qed
qed

lemma simRelD:
  assumes "simRel t f"
  shows "aRecords f (normalizeDomain d) = listA (trieRS t (normalizeDomain d))"
    and "aaaaRecords f (normalizeDomain d) = listAAAA (trieRS t (normalizeDomain d))"
    and "map_of (aWildcards f) p = listA (map_of (wildcards t) p)"
    and "map_of (aaaaWildcards f) p = listAAAA (map_of (wildcards t) p)"
    and "distinct (map fst (wildcards t))" and "distinct (map fst (aWildcards f))"
    and "distinct (map fst (aaaaWildcards f))"
    and "flatPtrRecords f = ptrRecords t"
    and "invGood t" and "invPtr t"
  using assms by (simp_all add: simRel_def relExact_def relWild_def)

lemma invGoodD:
  assumes "invGood t"
  shows "trieRS t (normalizeDomain d) = Some rs \<Longrightarrow> goodRS rs"
    and "map_of (wildcards t) p = Some rs \<Longrightarrow> goodRS rs"
  using assms unfolding invGood_def by blast+

lemma valid_family:
  assumes "validIP ip"
  shows "To4 ip \<noteq> None \<or> (To4 ip = None \<and> length ip = 16)"
  using assms by (auto simp: validIP_length To4_def)

lemma simRel_AddRecord_wild:
  assumes sim: "simRel t f" and valid: "validIP ip" and wild: "ContainsAny d ''*?''"
  shows "simRel (afterAddRecord t d ip) (flatAfterAddRecord f d ip)"
proof -
  let ?n = "normalizeDomain d"
  let ?v = "To4 ip \<noteq> None"
  let ?rs = "appendIP ?v ip (map_of (wildcards t) ?n)"
  note D = simRelD [OF sim]
  have t': "afterAddRecord t d ip = t\<lparr>wildcards := AList.update ?n ?rs (wildcards t)\<rparr>"
    using afterAddRecord_cases [of ip t d] valid wild by simp
  have good: "goodRS ?rs"
  proof (rule goodRS_appendIP)
    fix rs assume "map_of (wildcards t) ?n = Some rs"
    then show "goodRS rs" by (rule invGoodD(2) [OF D(9)])
  next
    assume ?v then show ?v .
  next
    assume "\<not> ?v" then show "To4 ip = None \<and> length ip = 16"
      using valid_family [OF valid] by blast
  qed
  show ?thesis
  proof (cases ?v)
    case True
    have f': "flatAfterAddRecord f d ip =
         f\<lparr>aWildcards := AList.update ?n (sliceOf (map_of (aWildcards f) ?n) @ [ip]) (aWildcards f)\<rparr>"
      using flatAfterAddRecord_cases [of ip f d] valid wild True by simp
    show ?thesis
      unfolding t' f'
    proof (rule simRel_wild_update [OF sim, where p = ?n and x = "Some ?rs"])
      show "map_of (aWildcards (f\<lparr>aWildcards := AList.update ?n
               (sliceOf (map_of (aWildcards f) ?n) @ [ip]) (aWildcards f)\<rparr>))
            = (map_of (aWildcards f))(?n := listA (Some ?rs))"
        using True by (simp add: update_conv' D(3))
      show "map_of (aaaaWildcards (f\<lparr>aWildcards := AList.update ?n
               (sliceOf (map_of (aWildcards f) ?n) @ [ip]) (aWildcards f)\<rparr>))
            = (map_of (aaaaWildcards f))(?n := listAAAA (Some ?rs))"
        using True by (simp add: D(4) fun_upd_idem)
      show "\<And>rs. Some ?rs = Some rs \<Longrightarrow> goodRS rs" using good by simp
    qed (simp_all add: update_conv' distinct_update D(5,6,7))
  next
    case False
    have f': "flatAfterAddRecord f d ip =
         f\<lparr>aaaaWildcards := AList.update ?n (sliceOf (map_of (aaaaWildcards f) ?n) @ [ip])
             (aaaaWildcards f)\<rparr>"
      using flatAfterAddRecord_cases [of ip f d] valid wild False by simp
    show ?thesis
      unfolding t' f'
    proof (rule simRel_wild_update [OF sim, where p = ?n and x = "Some ?rs"])
      show "map_of (aaaaWildcards (f\<lparr>aaaaWildcards := AList.update ?n
               (sliceOf (map_of (aaaaWildcards f) ?n) @ [ip]) (aaaaWildcards f)\<rparr>))
            = (map_of (aaaaWildcards f))(?n := listAAAA (Some ?rs))"
        using False by (simp add: update_conv' D(4))
      show "map_of (aWildcards (f\<lparr>aaaaWildcards := AList.update ?n
               (sliceOf (map_of (aaaaWildcards f) ?n) @ [ip]) (aaaaWildcards f)\<rparr>))
            = (map_of (aWildcards f))(?n := listA (Some ?rs))"
        using False by (simp add: D(3) fun_upd_idem)
      show "\<And>rs. Some ?rs = Some rs \<Longrightarrow> goodRS rs" using good by simp
    qed (simp_all add: update_conv' distinct_update D(5,6,7))
  qed
qed

lemma simRel_AddRecord_exact:
  assumes sim: "simRel t f" and valid: "validIP ip" and exact: "\<not> ContainsAny d ''*?''"
  shows "simRel (afterAddRecord t d ip) (flatAfterAddRecord f d ip)"
proof -
  let ?n = "normalizeDomain d"
  let ?v = "To4 ip \<noteq> None"
  let ?rs = "appendIP ?v ip (trieRS t ?n)"
  let ?ptr = "(ptrRecords t)(IPString ip \<mapsto> ?n)"
  let ?t' = "t\<lparr>root := addAtPath (root t) (domainToPath ?n) ?v ip, ptrRecords := ?ptr\<rparr>"
  note D = simRelD [OF sim]
  have t': "afterAddRecord t d ip = ?t'"
    using afterAddRecord_cases [of ip t d] valid exact by simp
  have good: "goodRS ?rs"
  proof (rule goodRS_appendIP)
    fix rs assume "trieRS t ?n = Some rs"
    then show "goodRS rs" by (rule invGoodD(1) [OF D(9)])
  next
    assume ?v then show ?v .
  next
    assume "\<not> ?v" then show "To4 ip = None \<and> length ip = 16"
      using valid_family [OF valid] by blast
  qed
  have own: "if n' = ?n
              then \<exists>rs ipx. Some ?rs = Some rs \<and> (ipx \<in> set (A rs) \<or> ipx \<in> set (AAAA rs))
                           \<and> IPString ipx = k
              else ptrRecords t k = Some n'" if "?ptr k = Some n'" for k n'
  proof (cases "k = IPString ip")
    case True
    have "ip \<in> set (A ?rs) \<or> ip \<in> set (AAAA ?rs)" unfolding set_appendIP by simp
    then show ?thesis using that True by auto
  next
    case False
    with that have p: "ptrRecords t k = Some n'" by simp
    show ?thesis
    proof (cases "n' = ?n")
      case True
      with p D(10) obtain rs0 ip0 where r: "trieRS t ?n = Some rs0"
        "ip0 \<in> set (A rs0) \<or> ip0 \<in> set (AAAA rs0)" "IPString ip0 = k"
        unfolding invPtr_def by blast
      have "ip0 \<in> set (A ?rs) \<or> ip0 \<in> set (AAAA ?rs)" unfolding set_appendIP using r by simp
      then show ?thesis using True r(3) by auto
    next
      case False
      then show ?thesis using p by simp
    qed
  qed
  have tr: "trieRS ?t' (normalizeDomain d')
              = (if normalizeDomain d' = ?n then Some ?rs else trieRS t (normalizeDomain d'))" for d'
    using trieRS_add [of t d ?v ip d'] by (simp add: trieRS_def)
  show ?thesis
  proof (cases ?v)
    case True
    have f': "flatAfterAddRecord f d ip =
         f\<lparr>aRecords := (aRecords f)(?n \<mapsto> sliceOf (aRecords f ?n) @ [ip]),
           flatPtrRecords := (flatPtrRecords f)(IPString ip \<mapsto> ?n)\<rparr>"
      using flatAfterAddRecord_cases [of ip f d] valid exact True by simp
    show ?thesis
      unfolding t' f'
    proof (rule simRel_exact_update [OF sim, where d = d and x = "Some ?rs" and ptr' = ?ptr])
      show "\<And>d'. trieRS ?t' (normalizeDomain d') =
               (if normalizeDomain d' = ?n then Some ?rs else trieRS t (normalizeDomain d'))"
        by (rule tr)
      show "\<And>rs. Some ?rs = Some rs \<Longrightarrow> goodRS rs" using good by simp
      show "\<And>k n'. ?ptr k = Some n' \<Longrightarrow>
               (if n' = ?n
                then \<exists>rs ipx. Some ?rs = Some rs \<and> (ipx \<in> set (A rs) \<or> ipx \<in> set (AAAA rs))
                             \<and> IPString ipx = k
                else ptrRecords t k = Some n')"
        by (rule own)
      show "aRecords (f\<lparr>aRecords := (aRecords f)(?n \<mapsto> sliceOf (aRecords f ?n) @ [ip]),
               flatPtrRecords := (flatPtrRecords f)(IPString ip \<mapsto> ?n)\<rparr>)
            = (aRecords f)(?n := listA (Some ?rs))"
        using True by (simp add: D(1))
      show "aaaaRecords (f\<lparr>aRecords := (aRecords f)(?n \<mapsto> sliceOf (aRecords f ?n) @ [ip]),
               flatPtrRecords := (flatPtrRecords f)(IPString ip \<mapsto> ?n)\<rparr>)
            = (aaaaRecords f)(?n := listAAAA (Some ?rs))"
        using True by (simp add: D(2) fun_upd_idem)
    qed (simp_all add: D(8))
  next
    case False
    have f': "flatAfterAddRecord f d ip =
         f\<lparr>aaaaRecords := (aaaaRecords f)(?n \<mapsto> sliceOf (aaaaRecords f ?n) @ [ip]),
           flatPtrRecords := (flatPtrRecords f)(IPString ip \<mapsto> ?n)\<rparr>"
      using flatAfterAddRecord_cases [of ip f d] valid exact False by simp
    show ?thesis
      unfolding t' f'
    proof (rule simRel_exact_update [OF sim, where d = d and x = "Some ?rs" and ptr' = ?ptr])
      show "\<And>d'. trieRS ?t' (normalizeDomain d') =
               (if normalizeDomain d' = ?n then Some ?rs else trieRS t (normalizeDomain d'))"
        by (rule tr)
      show "\<And>rs. Some ?rs = Some rs \<Longrightarrow> goodRS rs" using good by simp
      show "\<And>k n'. ?ptr k = Some n' \<Longrightarrow>
               (if n' = ?n
                then \<exists>rs ipx. Some ?rs = Some rs \<and> (ipx \<in> set (A rs) \<or> ipx \<in> set (AAAA rs))
                             \<and> IPString ipx = k
                else ptrRecords t k = Some n')"
        by (rule own)
      show "aaaaRecords (f\<lparr>aaaaRecords := (aaaaRecords f)(?n \<mapsto> sliceOf (aaaaRecords f ?n) @ [ip]),
               flatPtrRecords := (flatPtrRecords f)(IPString ip \<mapsto> ?n)\<rparr>)
            = (aaaaRecords f)(?n := listAAAA (Some ?rs))"
        using False by (simp add: D(2))
      show "aRecords (f\<lparr>aaaaRecords := (aaaaRecords f)(?n \<mapsto> sliceOf (aaaaRecords f ?n) @ [ip]),
               flatPtrRecords := (flatPtrRecords f)(IPString ip \<mapsto> ?n)\<rparr>)
            = (aRecords f)(?n := listA (Some ?rs))"
        using False by (simp add: D(1) fun_upd_idem)
    qed (simp_all add: D(8))
  qed
qed

lemma simRel_AddRecord:
  assumes "simRel t f"
  shows "simRel (afterAddRecord t d ip) (flatAfterAddRecord f d ip)"
proof (cases "validIP ip")
  case False
  then show ?thesis
    using afterAddRecord_cases [of ip t d] flatAfterAddRecord_cases [of ip f d] assms by simp
next
  case True
  then show ?thesis
    using simRel_AddRecord_wild [OF assms True] simRel_AddRecord_exact [OF assms True]
    by (cases "ContainsAny d ''*?''") simp_all
qed

lemma simRel_New: "simRel NewDNSRecordStore flatNewDNSRecordStore"
  by (simp add: simRel_def relExact_def relWild_def invGood_def invPtr_def trieRS_def
      NewDNSRecordStore_def flatNewDNSRecordStore_def)

lemma simRel_Clear: "simRel (Clear t) (flatClear f)"
  by (simp add: simRel_def relExact_def relWild_def invGood_def invPtr_def trieRS_def
      Clear_def flatClear_def)

lemma simRel_RemovePTRRecord:
  assumes "simRel t f"
  shows "simRel (RemovePTRRecord t ip) (flatRemovePTRRecord f ip)"
proof -
  note D = simRelD [OF assms]
  have "invPtr (RemovePTRRecord t ip)"
    using D(10) unfolding invPtr_def RemovePTRRecord_def
    by (simp split: if_splits)
  then show ?thesis
    using assms
    by (simp add: simRel_def relExact_def relWild_def invGood_def RemovePTRRecord_def
        flatRemovePTRRecord_def)
qed

lemma removeIP_Nil [simp]: "removeIP [] ip = []"
  by (simp add: removeIP_def)

lemma removeIP_invalid:
  assumes "list_all validIP l" and "\<not> validIP ip"
  shows "removeIP l ip = l"
  using assms Equal_invalid by (auto simp: removeIP_def list_all_iff filter_id_conv)

lemma goodRS_valid:
  assumes "goodRS rs"
  shows "list_all validIP (A rs)" and "list_all validIP (AAAA rs)"
  using assms by (auto simp: goodRS_def list_all_iff validIP_def To16_def)

lemma listA_remData:
  "listA (remData d ip) =
     (if To4 ip \<noteq> None then nonEmptyList (removeIP (sliceOf (listA d)) ip) else listA d)"
  by (cases d) (auto simp: remData_def Let_def nonEmptyList_def)

lemma listAAAA_remData:
  "listAAAA (remData d ip) =
     (if To4 ip \<noteq> None then listAAAA d else nonEmptyList (removeIP (sliceOf (listAAAA d)) ip))"
  by (cases d) (auto simp: remData_def Let_def nonEmptyList_def)

lemma goodRS_remData:
  assumes "\<And>rs. d = Some rs \<Longrightarrow> goodRS rs" and "remData d ip = Some rs'"
  shows "goodRS rs'"
proof (cases d)
  case None
  then show ?thesis using assms(2) by (simp add: remData_def)
next
  case (Some rs)
  then have g: "goodRS rs" by (rule assms(1))
  show ?thesis
    using assms(2) g unfolding Some remData_def Let_def goodRS_def removeIP_def
    by (auto simp: list_all_iff split: if_splits)
qed

lemma member_remData:
  assumes "goodRS rs" and "ip0 \<in> set (A rs) \<or> ip0 \<in> set (AAAA rs)"
    and "IPString ip0 \<noteq> IPString ip"
  shows "\<exists>rs'. remData (Some rs) ip = Some rs'
            \<and> (ip0 \<in> set (A rs') \<or> ip0 \<in> set (AAAA rs'))"
proof -
  have "validIP ip0" using assms(1,2) goodRS_valid [OF assms(1)] by (auto simp: list_all_iff)
  then have ne: "\<not> Equal ip0 ip" using Equal_IPString assms(3) by blast
  show ?thesis
  proof (cases "To4 ip \<noteq> None")
    case True
    have "ip0 \<in> set (removeIP (A rs) ip) \<or> ip0 \<in> set (AAAA rs)"
      using assms(2) ne by (auto simp: removeIP_def)
    then show ?thesis using True by (auto simp: remData_def Let_def)
  next
    case False
    have "ip0 \<in> set (A rs) \<or> ip0 \<in> set (removeIP (AAAA rs) ip)"
      using assms(2) ne by (auto simp: removeIP_def)
    then show ?thesis using False by (auto simp: remData_def Let_def)
  qed
qed

lemma map_remove:
  assumes "m n \<noteq> Some []"
  shows "(case m n of None \<Rightarrow> m
          | Some ips \<Rightarrow> if length (removeIP ips ip) = 0 then m(n := None)
                        else m(n \<mapsto> removeIP ips ip))
         = m(n := nonEmptyList (removeIP (sliceOf (m n)) ip))"
  using assms by (cases "m n") (auto simp: fun_upd_idem nonEmptyList_def)

lemma alist_remove:
  assumes "distinct (map fst al)"
  shows "map_of (case map_of al n of None \<Rightarrow> al
          | Some ips \<Rightarrow> if length (removeIP ips ip) = 0 then AList.delete n al
                        else AList.update n (removeIP ips ip) al)
         = (map_of al)(n := nonEmptyList (removeIP (sliceOf (map_of al n)) ip))"
    and "distinct (map fst (case map_of al n of None \<Rightarrow> al
          | Some ips \<Rightarrow> if length (removeIP ips ip) = 0 then AList.delete n al
                        else AList.update n (removeIP ips ip) al))"
  using assms
  by (cases "map_of al n"; simp add: fun_upd_idem nonEmptyList_def update_conv' delete_conv'
        distinct_update distinct_delete)+

text \<open>The fields of the trie store after \<^verbatim>\<open>RemoveRecord\<close> with an address.\<close>

lemma RemoveRecord_wild_ip:
  assumes "ContainsAny d ''*?''"
  shows "root (RemoveRecord t d (Some ip)) = root t"
    and "ptrRecords (RemoveRecord t d (Some ip)) = ptrRecords t"
    and "wildcards (RemoveRecord t d (Some ip)) =
           (case map_of (wildcards t) (normalizeDomain d) of
              None \<Rightarrow> wildcards t
            | Some rs \<Rightarrow>
                (case remData (Some rs) ip of
                   None \<Rightarrow> AList.delete (normalizeDomain d) (wildcards t)
                 | Some rs' \<Rightarrow> AList.update (normalizeDomain d) rs' (wildcards t)))"
  using assms
  by (simp_all add: RemoveRecord_def remData_def Let_def split: option.splits)

lemma RemoveRecord_wild_ip_map:
  assumes "ContainsAny d ''*?''"
  shows "map_of (wildcards (RemoveRecord t d (Some ip)))
         = (map_of (wildcards t))
             (normalizeDomain d := remData (map_of (wildcards t) (normalizeDomain d)) ip)"
proof (cases "map_of (wildcards t) (normalizeDomain d)")
  case None
  then show ?thesis
    unfolding RemoveRecord_wild_ip(3) [OF assms] by (simp add: remData_def fun_upd_idem)
next
  case (Some rs)
  then show ?thesis
    unfolding RemoveRecord_wild_ip(3) [OF assms]
    by (cases "remData (Some rs) ip") (simp_all add: update_conv' delete_conv')
qed

lemma RemoveRecord_wild_ip_distinct:
  assumes "ContainsAny d ''*?''" and "distinct (map fst (wildcards t))"
  shows "distinct (map fst (wildcards (RemoveRecord t d (Some ip))))"
  using assms(2) unfolding RemoveRecord_wild_ip(3) [OF assms(1)]
  by (simp add: distinct_update distinct_delete split: option.splits)

lemma flatRemoveRecord_wild_ip:
  assumes "ContainsAny d ''*?''"
  shows "aRecords (flatRemoveRecord f d (Some ip)) = aRecords f"
    and "aaaaRecords (flatRemoveRecord f d (Some ip)) = aaaaRecords f"
    and "flatPtrRecords (flatRemoveRecord f d (Some ip)) = flatPtrRecords f"
    and "aWildcards (flatRemoveRecord f d (Some ip)) =
           (if To4 ip \<noteq> None then
              (case map_of (aWildcards f) (normalizeDomain d) of None \<Rightarrow> aWildcards f
               | Some ips \<Rightarrow> if length (removeIP ips ip) = 0
                             then AList.delete (normalizeDomain d) (aWildcards f)
                             else AList.update (normalizeDomain d) (removeIP ips ip) (aWildcards f))
            else aWildcards f)"
    and "aaaaWildcards (flatRemoveRecord f d (Some ip)) =
           (if To4 ip = None \<and> validIP ip then
              (case map_of (aaaaWildcards f) (normalizeDomain d) of None \<Rightarrow> aaaaWildcards f
               | Some ips \<Rightarrow> if length (removeIP ips ip) = 0
                             then AList.delete (normalizeDomain d) (aaaaWildcards f)
                             else AList.update (normalizeDomain d) (removeIP ips ip) (aaaaWildcards f))
            else aaaaWildcards f)"
  using assms
  by (auto simp: flatRemoveRecord_def Let_def validIP_def split: option.splits)

lemma removeIP_bad_AAAA:
  assumes "\<And>rs. d = Some rs \<Longrightarrow> goodRS rs" and "\<not> validIP ip"
  shows "removeIP (sliceOf (listAAAA d)) ip = sliceOf (listAAAA d)"
proof (cases d)
  case None
  then show ?thesis by simp
next
  case (Some rs)
  then show ?thesis
    using removeIP_invalid [OF goodRS_valid(2) [OF assms(1) [OF Some]] assms(2)] by simp
qed

lemma simRel_RemoveRecord_wild_ip:
  assumes sim: "simRel t f" and wild: "ContainsAny d ''*?''"
  shows "simRel (RemoveRecord t d (Some ip)) (flatRemoveRecord f d (Some ip))"
proof -
  let ?n = "normalizeDomain d"
  let ?d = "map_of (wildcards t) ?n"
  let ?x = "remData ?d ip"
  note D = simRelD [OF sim]
  note T = RemoveRecord_wild_ip [OF wild]
  note F = flatRemoveRecord_wild_ip [OF wild]
  have good: "goodRS rs" if "?d = Some rs" for rs
    using that by (rule invGoodD(2) [OF D(9)])
  show ?thesis
  proof (rule simRel_wild_update [OF sim, where p = ?n and x = ?x])
    show "map_of (wildcards (RemoveRecord t d (Some ip))) = (map_of (wildcards t))(?n := ?x)"
      by (rule RemoveRecord_wild_ip_map [OF wild])
    show "distinct (map fst (wildcards (RemoveRecord t d (Some ip))))"
      by (rule RemoveRecord_wild_ip_distinct [OF wild D(5)])
    show "root (RemoveRecord t d (Some ip)) = root t" by (rule T(1))
    show "ptrRecords (RemoveRecord t d (Some ip)) = ptrRecords t" by (rule T(2))
    show "aRecords (flatRemoveRecord f d (Some ip)) = aRecords f" by (rule F(1))
    show "aaaaRecords (flatRemoveRecord f d (Some ip)) = aaaaRecords f" by (rule F(2))
    show "flatPtrRecords (flatRemoveRecord f d (Some ip)) = flatPtrRecords f" by (rule F(3))
    show "\<And>rs. ?x = Some rs \<Longrightarrow> goodRS rs" using goodRS_remData good by blast
    show "map_of (aWildcards (flatRemoveRecord f d (Some ip)))
          = (map_of (aWildcards f))(?n := listA ?x)"
    proof (cases "To4 ip \<noteq> None")
      case True
      then show ?thesis
        unfolding F(4) listA_remData using alist_remove(1) [OF D(6), where n = ?n and ip = ip]
        by (simp add: D(3))
    next
      case False
      then show ?thesis
        unfolding F(4) listA_remData by (simp add: D(3) fun_upd_idem)
    qed
    show "distinct (map fst (aWildcards (flatRemoveRecord f d (Some ip))))"
      unfolding F(4) using alist_remove(2) [OF D(6), where n = ?n and ip = ip] D(6) by simp
    show "map_of (aaaaWildcards (flatRemoveRecord f d (Some ip)))
          = (map_of (aaaaWildcards f))(?n := listAAAA ?x)"
    proof (cases "To4 ip \<noteq> None")
      case True
      then have c: "(To4 ip = None \<and> validIP ip) = False" by simp
      show ?thesis
        using True unfolding F(5) c listAAAA_remData by (simp add: D(4) fun_upd_idem)
    next
      case False
      show ?thesis
      proof (cases "validIP ip")
        case True
        then show ?thesis
          using False
          unfolding F(5) listAAAA_remData using alist_remove(1) [OF D(7), where n = ?n and ip = ip]
          by (simp add: D(4))
      next
        case v: False
        have "removeIP (sliceOf (listAAAA ?d)) ip = sliceOf (listAAAA ?d)"
          using removeIP_bad_AAAA [of ?d ip] good v by blast
        then show ?thesis
          using False v
          unfolding F(5) listAAAA_remData
          by (simp add: D(4) fun_upd_idem)
      qed
    qed
    show "distinct (map fst (aaaaWildcards (flatRemoveRecord f d (Some ip))))"
      unfolding F(5) using alist_remove(2) [OF D(7), where n = ?n and ip = ip] D(7) by simp
  qed
qed

lemma simRel_RemoveRecord_wild_all:
  assumes sim: "simRel t f" and wild: "ContainsAny d ''*?''"
  shows "simRel (RemoveRecord t d None) (flatRemoveRecord f d None)"
proof -
  let ?n = "normalizeDomain d"
  note D = simRelD [OF sim]
  have t': "RemoveRecord t d None = t\<lparr>wildcards := AList.delete ?n (wildcards t)\<rparr>"
    using wild by (simp add: RemoveRecord_def Let_def)
  have f': "flatRemoveRecord f d None =
              f\<lparr>aWildcards := AList.delete ?n (aWildcards f),
                aaaaWildcards := AList.delete ?n (aaaaWildcards f)\<rparr>"
    using wild by (simp add: flatRemoveRecord_def Let_def)
  show ?thesis
    unfolding t' f'
    by (rule simRel_wild_update [OF sim, where p = ?n and x = None])
      (simp_all add: delete_conv' distinct_delete D(5,6,7))
qed

lemma ptr_owner_data:
  assumes "invPtr t" and "ptrRecords t k = Some n"
  shows "\<exists>rs ip. trieRS t n = Some rs \<and> (ip \<in> set (A rs) \<or> ip \<in> set (AAAA rs))
            \<and> IPString ip = k"
  using assms unfolding invPtr_def by blast

lemma RemoveRecord_exact_ip_fields:
  assumes exact: "\<not> ContainsAny d ''*?''" and ip: "invPtr t"
  shows "wildcards (RemoveRecord t d (Some ip)) = wildcards t"
    and "ptrRecords (RemoveRecord t d (Some ip))
           = deletePTRIfOwned (ptrRecords t) ip (normalizeDomain d)"
    and "trieRS (RemoveRecord t d (Some ip)) (normalizeDomain d')
           = (if normalizeDomain d' = normalizeDomain d
              then remData (trieRS t (normalizeDomain d)) ip
              else trieRS t (normalizeDomain d'))"
proof -
  let ?n = "normalizeDomain d"
  have "wildcards (RemoveRecord t d (Some ip)) = wildcards t
      \<and> ptrRecords (RemoveRecord t d (Some ip)) = deletePTRIfOwned (ptrRecords t) ip ?n
      \<and> trieRS (RemoveRecord t d (Some ip)) (normalizeDomain d')
           = (if normalizeDomain d' = ?n then remData (trieRS t ?n) ip
              else trieRS t (normalizeDomain d'))"
  proof (cases "trieRS t ?n")
    case None
    then have t': "RemoveRecord t d (Some ip) = t"
      using RemoveRecord_exact_absent [OF exact] by (simp add: trieRS_def)
    have "ptrRecords t (IPString ip) \<noteq> Some ?n"
      using ptr_owner_data [OF ip, of "IPString ip" ?n] None by auto
    then have "deletePTRIfOwned (ptrRecords t) ip ?n = ptrRecords t"
      by (simp add: deletePTRIfOwned_def)
    then show ?thesis unfolding t' using None by (simp add: remData_def)
  next
    case (Some rs)
    then have da: "dataAt (root t) (domainToPath ?n) = Some rs" by (simp add: trieRS_def)
    have x: "remData (Some rs) ip =
        (let rs' = (if To4 ip \<noteq> None then rs\<lparr>A := removeIP (A rs) ip\<rparr>
                       else rs\<lparr>AAAA := removeIP (AAAA rs) ip\<rparr>)
         in if length (A rs') = 0 \<and> length (AAAA rs') = 0 then None else Some rs')"
      by (simp add: remData_def)
    have t': "RemoveRecord t d (Some ip) =
           t\<lparr>ptrRecords := deletePTRIfOwned (ptrRecords t) ip ?n,
             root := setData (root t) (domainToPath ?n) (remData (Some rs) ip)\<rparr>"
      unfolding RemoveRecord_exact_ip [OF exact da] x Let_def ..
    have tr: "trieRS (t\<lparr>ptrRecords := deletePTRIfOwned (ptrRecords t) ip ?n,
             root := setData (root t) (domainToPath ?n) (remData (Some rs) ip)\<rparr>)
               (normalizeDomain d')
          = (if normalizeDomain d' = ?n then remData (Some rs) ip
             else trieRS t (normalizeDomain d'))"
      using trieRS_setData [OF Some, of "remData (Some rs) ip" d'] by (simp add: trieRS_def)
    show ?thesis unfolding t' tr Some by simp
  qed
  then show "wildcards (RemoveRecord t d (Some ip)) = wildcards t"
    and "ptrRecords (RemoveRecord t d (Some ip))
           = deletePTRIfOwned (ptrRecords t) ip (normalizeDomain d)"
    and "trieRS (RemoveRecord t d (Some ip)) (normalizeDomain d')
           = (if normalizeDomain d' = normalizeDomain d
              then remData (trieRS t (normalizeDomain d)) ip
              else trieRS t (normalizeDomain d'))"
    by blast+
qed

lemma flatRemoveRecord_exact_ip:
  assumes "\<not> ContainsAny d ''*?''"
  shows "aWildcards (flatRemoveRecord f d (Some ip)) = aWildcards f"
    and "aaaaWildcards (flatRemoveRecord f d (Some ip)) = aaaaWildcards f"
    and "aRecords (flatRemoveRecord f d (Some ip)) =
           (if To4 ip \<noteq> None then
              (case aRecords f (normalizeDomain d) of None \<Rightarrow> aRecords f
               | Some ips \<Rightarrow> if length (removeIP ips ip) = 0
                             then (aRecords f)(normalizeDomain d := None)
                             else (aRecords f)(normalizeDomain d \<mapsto> removeIP ips ip))
            else aRecords f)"
    and "aaaaRecords (flatRemoveRecord f d (Some ip)) =
           (if To4 ip = None \<and> validIP ip then
              (case aaaaRecords f (normalizeDomain d) of None \<Rightarrow> aaaaRecords f
               | Some ips \<Rightarrow> if length (removeIP ips ip) = 0
                             then (aaaaRecords f)(normalizeDomain d := None)
                             else (aaaaRecords f)(normalizeDomain d \<mapsto> removeIP ips ip))
            else aaaaRecords f)"
    and "flatPtrRecords (flatRemoveRecord f d (Some ip)) =
           (if To4 ip \<noteq> None then
              (case aRecords f (normalizeDomain d) of None \<Rightarrow> flatPtrRecords f
               | Some ips \<Rightarrow> deletePTRIfOwned (flatPtrRecords f) ip (normalizeDomain d))
            else if validIP ip then
              (case aaaaRecords f (normalizeDomain d) of None \<Rightarrow> flatPtrRecords f
               | Some ips \<Rightarrow> deletePTRIfOwned (flatPtrRecords f) ip (normalizeDomain d))
            else flatPtrRecords f)"
  using assms
  by (auto simp: flatRemoveRecord_def Let_def validIP_def split: option.splits)

lemma flatRemoveRecord_exact_ip_ptr:
  assumes sim: "simRel t f" and exact: "\<not> ContainsAny d ''*?''"
  shows "flatPtrRecords (flatRemoveRecord f d (Some ip))
           = deletePTRIfOwned (ptrRecords t) ip (normalizeDomain d)"
proof -
  let ?n = "normalizeDomain d"
  note D = simRelD [OF sim]
  show ?thesis
  proof (cases "ptrRecords t (IPString ip) = Some ?n")
    case False
    then have "deletePTRIfOwned (ptrRecords t) ip ?n = ptrRecords t"
      by (simp add: deletePTRIfOwned_def)
    then show ?thesis
      unfolding flatRemoveRecord_exact_ip(5) [OF exact] D(8)
      by (simp split: option.splits)
  next
    case True
    from owner_family [OF D(9,10) True] obtain rs where v: "validIP ip"
      and rs: "trieRS t ?n = Some rs"
      and ne: "if To4 ip \<noteq> None then A rs \<noteq> [] else AAAA rs \<noteq> []" by blast
    show ?thesis
    proof (cases "To4 ip \<noteq> None")
      case t: True
      with ne have "aRecords f ?n = Some (A rs)" using D(1) [of d] rs by simp
      then show ?thesis
        using t unfolding flatRemoveRecord_exact_ip(5) [OF exact] D(8) by simp
    next
      case t: False
      with ne have "aaaaRecords f ?n = Some (AAAA rs)" using D(2) [of d] rs by simp
      then show ?thesis
        using t v unfolding flatRemoveRecord_exact_ip(5) [OF exact] D(8) by simp
    qed
  qed
qed

lemma simRel_RemoveRecord_exact_ip:
  assumes sim: "simRel t f" and exact: "\<not> ContainsAny d ''*?''"
  shows "simRel (RemoveRecord t d (Some ip)) (flatRemoveRecord f d (Some ip))"
proof -
  let ?n = "normalizeDomain d"
  let ?d = "trieRS t ?n"
  let ?x = "remData ?d ip"
  let ?ptr = "deletePTRIfOwned (ptrRecords t) ip ?n"
  note D = simRelD [OF sim]
  note T = RemoveRecord_exact_ip_fields [OF exact D(10)]
  note F = flatRemoveRecord_exact_ip [OF exact]
  have good: "goodRS rs" if "?d = Some rs" for rs
    using that by (rule invGoodD(1) [OF D(9)])
  have a0: "aRecords f ?n \<noteq> Some []" "aaaaRecords f ?n \<noteq> Some []"
    unfolding D(1) D(2) by (cases ?d; simp add: nonEmptyList_def)+
  show ?thesis
  proof (rule simRel_exact_update [OF sim, where d = d and x = ?x and ptr' = ?ptr])
    show "\<And>d'. trieRS (RemoveRecord t d (Some ip)) (normalizeDomain d') =
            (if normalizeDomain d' = ?n then ?x else trieRS t (normalizeDomain d'))"
      by (rule T(3))
    show "wildcards (RemoveRecord t d (Some ip)) = wildcards t" by (rule T(1))
    show "ptrRecords (RemoveRecord t d (Some ip)) = ?ptr" by (rule T(2))
    show "aWildcards (flatRemoveRecord f d (Some ip)) = aWildcards f" by (rule F(1))
    show "aaaaWildcards (flatRemoveRecord f d (Some ip)) = aaaaWildcards f" by (rule F(2))
    show "flatPtrRecords (flatRemoveRecord f d (Some ip)) = ?ptr"
      by (rule flatRemoveRecord_exact_ip_ptr [OF sim exact])
    show "\<And>rs. ?x = Some rs \<Longrightarrow> goodRS rs" using goodRS_remData good by blast
    show "aRecords (flatRemoveRecord f d (Some ip)) = (aRecords f)(?n := listA ?x)"
    proof (cases "To4 ip \<noteq> None")
      case True
      then show ?thesis
        unfolding F(3) listA_remData using map_remove [of "aRecords f" ?n ip, OF a0(1)]
        by (simp add: D(1))
    next
      case False
      then show ?thesis
        unfolding F(3) listA_remData by (simp add: D(1) fun_upd_idem)
    qed
    show "aaaaRecords (flatRemoveRecord f d (Some ip)) = (aaaaRecords f)(?n := listAAAA ?x)"
    proof (cases "To4 ip \<noteq> None")
      case True
      then have c: "(To4 ip = None \<and> validIP ip) = False" by simp
      show ?thesis
        using True unfolding F(4) c listAAAA_remData by (simp add: D(2) fun_upd_idem)
    next
      case False
      show ?thesis
      proof (cases "validIP ip")
        case True
        then show ?thesis
          using False
          unfolding F(4) listAAAA_remData using map_remove [of "aaaaRecords f" ?n ip, OF a0(2)]
          by (simp add: D(2))
      next
        case v: False
        have "removeIP (sliceOf (listAAAA ?d)) ip = sliceOf (listAAAA ?d)"
          using removeIP_bad_AAAA [of ?d ip] good v by blast
        then show ?thesis
          using False v
          unfolding F(4) listAAAA_remData
          by (simp add: D(2) fun_upd_idem)
      qed
    qed
    show "if n' = ?n
          then \<exists>rs ipx. ?x = Some rs \<and> (ipx \<in> set (A rs) \<or> ipx \<in> set (AAAA rs))
                    \<and> IPString ipx = k
          else ptrRecords t k = Some n'" if "?ptr k = Some n'" for k n'
    proof -
      from that have p: "ptrRecords t k = Some n'" and q: "\<not> (k = IPString ip \<and> n' = ?n)"
        by (auto simp: deletePTRIfOwned_def split: if_splits)
      show ?thesis
      proof (cases "n' = ?n")
        case False
        then show ?thesis using p by simp
      next
        case True
        with p obtain rs0 ip0 where r: "?d = Some rs0"
          "ip0 \<in> set (A rs0) \<or> ip0 \<in> set (AAAA rs0)" "IPString ip0 = k"
          using ptr_owner_data [OF D(10)] by blast
        have "IPString ip0 \<noteq> IPString ip" using q True r(3) by simp
        from member_remData [OF good [OF r(1)] r(2) this]
        show ?thesis using True r(1,3) by auto
      qed
    qed
  qed
qed

lemma fold_sliceOf:
  "(case m of None \<Rightarrow> p | Some ips \<Rightarrow> fold g ips p) = fold g (sliceOf m) p"
  by (cases m) simp_all

lemma flatRemoveRecord_exact_all:
  assumes "\<not> ContainsAny d ''*?''"
  shows "flatRemoveRecord f d None =
     f\<lparr>flatPtrRecords :=
         fold (\<lambda>ipAddr ptr. deletePTRIfOwned ptr ipAddr (normalizeDomain d))
           (sliceOf (aaaaRecords f (normalizeDomain d)))
           (fold (\<lambda>ipAddr ptr. deletePTRIfOwned ptr ipAddr (normalizeDomain d))
              (sliceOf (aRecords f (normalizeDomain d))) (flatPtrRecords f)),
       aRecords := (aRecords f)(normalizeDomain d := None),
       aaaaRecords := (aaaaRecords f)(normalizeDomain d := None)\<rparr>"
  using assms by (simp add: flatRemoveRecord_def Let_def fold_sliceOf)

lemma RemoveRecord_exact_all_fields:
  assumes exact: "\<not> ContainsAny d ''*?''" and ip: "invPtr t"
  shows "wildcards (RemoveRecord t d None) = wildcards t"
    and "ptrRecords (RemoveRecord t d None)
           = fold (\<lambda>ipAddr ptr. deletePTRIfOwned ptr ipAddr (normalizeDomain d))
               (sliceOf (listAAAA (trieRS t (normalizeDomain d))))
               (fold (\<lambda>ipAddr ptr. deletePTRIfOwned ptr ipAddr (normalizeDomain d))
                  (sliceOf (listA (trieRS t (normalizeDomain d)))) (ptrRecords t))"
    and "trieRS (RemoveRecord t d None) (normalizeDomain d')
           = (if normalizeDomain d' = normalizeDomain d then None
              else trieRS t (normalizeDomain d'))"
proof -
  let ?n = "normalizeDomain d"
  let ?g = "\<lambda>ipAddr ptr. deletePTRIfOwned ptr ipAddr ?n"
  have "wildcards (RemoveRecord t d None) = wildcards t
      \<and> ptrRecords (RemoveRecord t d None)
           = fold ?g (sliceOf (listAAAA (trieRS t ?n)))
               (fold ?g (sliceOf (listA (trieRS t ?n))) (ptrRecords t))
      \<and> trieRS (RemoveRecord t d None) (normalizeDomain d')
           = (if normalizeDomain d' = ?n then None else trieRS t (normalizeDomain d'))"
  proof (cases "trieRS t ?n")
    case None
    then have t': "RemoveRecord t d None = t"
      using RemoveRecord_exact_absent [OF exact] by (simp add: trieRS_def)
    show ?thesis unfolding t' using None by simp
  next
    case (Some rs)
    then obtain node where w: "walk (root t) (domainToPath ?n) = Some node" "data node = Some rs"
      using walk_data_dataAt [of "root t" "domainToPath ?n" rs] by (auto simp: trieRS_def)
    have t': "RemoveRecord t d None =
           t\<lparr>ptrRecords := fold ?g (AAAA rs) (fold ?g (A rs) (ptrRecords t)),
             root := setData (root t) (domainToPath ?n) None\<rparr>"
      using exact w by (simp add: RemoveRecord_def Let_def)
    have tr: "trieRS (t\<lparr>ptrRecords := fold ?g (AAAA rs) (fold ?g (A rs) (ptrRecords t)),
             root := setData (root t) (domainToPath ?n) None\<rparr>) (normalizeDomain d')
          = (if normalizeDomain d' = ?n then None else trieRS t (normalizeDomain d'))"
      using trieRS_setData [OF Some, of None d'] by (simp add: trieRS_def)
    show ?thesis unfolding t' tr Some by simp
  qed
  then show "wildcards (RemoveRecord t d None) = wildcards t"
    and "ptrRecords (RemoveRecord t d None)
           = fold ?g (sliceOf (listAAAA (trieRS t ?n)))
               (fold ?g (sliceOf (listA (trieRS t ?n))) (ptrRecords t))"
    and "trieRS (RemoveRecord t d None) (normalizeDomain d')
           = (if normalizeDomain d' = ?n then None else trieRS t (normalizeDomain d'))"
    by blast+
qed

lemma simRel_RemoveRecord_exact_all:
  assumes sim: "simRel t f" and exact: "\<not> ContainsAny d ''*?''"
  shows "simRel (RemoveRecord t d None) (flatRemoveRecord f d None)"
proof -
  let ?n = "normalizeDomain d"
  let ?g = "\<lambda>ipAddr ptr. deletePTRIfOwned ptr ipAddr ?n"
  let ?d = "trieRS t ?n"
  let ?ptr = "fold ?g (sliceOf (listAAAA ?d)) (fold ?g (sliceOf (listA ?d)) (ptrRecords t))"
  note D = simRelD [OF sim]
  note T = RemoveRecord_exact_all_fields [OF exact D(10)]
  note F = flatRemoveRecord_exact_all [OF exact]
  have sub: "ptrRecords t k = Some n'" if "?ptr k = Some n'" for k n'
    using that unfolding fold_deletePTRIfOwned by (simp split: if_splits)
  show ?thesis
  proof (rule simRel_exact_update [OF sim, where d = d and x = None and ptr' = ?ptr])
    show "\<And>d'. trieRS (RemoveRecord t d None) (normalizeDomain d') =
            (if normalizeDomain d' = ?n then None else trieRS t (normalizeDomain d'))"
      by (rule T(3))
    show "wildcards (RemoveRecord t d None) = wildcards t" by (rule T(1))
    show "ptrRecords (RemoveRecord t d None) = ?ptr" by (rule T(2))
    show "flatPtrRecords (flatRemoveRecord f d None) = ?ptr"
      unfolding F by (simp add: D(1,2,8))
    show "if n' = ?n
          then \<exists>rs ipx. None = Some rs \<and> (ipx \<in> set (A rs) \<or> ipx \<in> set (AAAA rs))
                    \<and> IPString ipx = k
          else ptrRecords t k = Some n'" if p': "?ptr k = Some n'" for k n'
    proof (cases "n' = ?n")
      case False
      then show ?thesis using sub [OF p'] by simp
    next
      case True
      with sub [OF p'] obtain rs0 ip0 where r: "?d = Some rs0"
        "ip0 \<in> set (A rs0) \<or> ip0 \<in> set (AAAA rs0)" "IPString ip0 = k"
        using ptr_owner_data [OF D(10)] by blast
      have g: "goodRS rs0" using r(1) by (rule invGoodD(1) [OF D(9)])
      have "k \<in> IPString ` set (A rs0) \<or> k \<in> IPString ` set (AAAA rs0)"
        using r(2,3) by blast
      then have "?ptr k = None"
        unfolding fold_deletePTRIfOwned r(1) using sub [OF p'] True
        by (auto simp: nonEmptyList_def sliceOf_def)
      with p' show ?thesis by simp
    qed
  qed (simp_all add: F)
qed

lemma simRel_RemoveRecord:
  assumes "simRel t f"
  shows "simRel (RemoveRecord t d ipOpt) (flatRemoveRecord f d ipOpt)"
proof (cases "ContainsAny d ''*?''")
  case True
  then show ?thesis
    using simRel_RemoveRecord_wild_all [OF assms True] simRel_RemoveRecord_wild_ip [OF assms True]
    by (cases ipOpt) simp_all
next
  case False
  then show ?thesis
    using simRel_RemoveRecord_exact_all [OF assms False]
      simRel_RemoveRecord_exact_ip [OF assms False]
    by (cases ipOpt) simp_all
qed

lemma simRel_step:
  assumes "simRel t f" and "\<not> isAddPTRRecord op"
  shows "simRel (applyOp t op) (flatApplyOp f op)"
  using assms
  by (cases op)
    (simp_all add: simRel_AddRecord simRel_RemoveRecord simRel_RemovePTRRecord simRel_Clear)

lemma simRel_foldl:
  assumes "simRel t f" and "list_all (\<lambda>op. \<not> isAddPTRRecord op) ops"
  shows "simRel (foldl applyOp t ops) (foldl flatApplyOp f ops)"
  using assms
proof (induction ops arbitrary: t f)
  case Nil
  then show ?case by simp
next
  case (Cons op ops)
  then show ?case using simRel_step [of t f op] by simp
qed

lemma simRel_runOps:
  assumes "list_all (\<lambda>op. \<not> isAddPTRRecord op) ops"
  shows "simRel (runOps ops) (flatRunOps ops)"
  unfolding runOps_def flatRunOps_def by (rule simRel_foldl [OF simRel_New assms])

lemma query_normal:
  assumes "IsFqdn (Fqdn d)"
  shows "ToLower (Fqdn d) = normalizeDomain (Fqdn d)"
proof -
  from assms have "Fqdn d \<noteq> []" "last (Fqdn d) = CHR ''.''"
    by (auto simp: IsFqdn_def split: if_splits)
  moreover have "Fqdn (Fqdn d) = Fqdn d" using assms by (simp add: Fqdn_def)
  ultimately show ?thesis by (simp add: normalizeDomain_def)
qed

text \<open>Wildcard entries of one family: the flat list and the projection of the trie's list
  hold the same entries.\<close>

lemma proj_gen_map_of:
  assumes "distinct (map fst ws)"
  shows "map_of (map (\<lambda>(p, rs). (p, g rs)) (filter (\<lambda>(p, rs). g rs \<noteq> []) ws)) p
         = (case map_of ws p of None \<Rightarrow> None | Some rs \<Rightarrow> nonEmptyList (g rs))"
  using assms
proof (induction ws)
  case Nil
  then show ?case by simp
next
  case (Cons a ws)
  obtain k rs where a: "a = (k, rs)" by (cases a)
  have k: "k \<notin> fst ` set ws" using Cons.prems a by simp
  have "map_of (map (\<lambda>(p, rs). (p, g rs)) (filter (\<lambda>(p, rs). g rs \<noteq> []) ws)) k = None"
    using k by (force simp: map_of_eq_None_iff)
  moreover have "map_of ws k = None" using k by (simp add: map_of_eq_None_iff)
  ultimately show ?case using Cons a by (auto simp: nonEmptyList_def)
qed

lemma proj_gen_distinct:
  assumes "distinct (map fst ws)"
  shows "distinct (map fst (map (\<lambda>(p, rs). (p, g rs)) (filter (\<lambda>(p, rs). g rs \<noteq> []) ws)))"
proof -
  have e: "map fst (map (\<lambda>(p, rs). (p, g rs)) zs) = map fst zs" for zs
    by (induction zs) auto
  show ?thesis unfolding e using assms by (rule distinct_map_filter)
qed

lemma same_entries:
  assumes "distinct (map fst xs)" and "distinct (map fst ys)" and "map_of xs = map_of ys"
  shows "mset xs = mset ys"
proof -
  have "set xs = set ys" using assms map_of_inject_set by blast
  moreover have "distinct xs" "distinct ys" using assms(1,2) distinct_map by blast+
  ultimately show ?thesis using set_eq_iff_mset_eq_distinct by blast
qed

lemma projA_entries:
  assumes "simRel t f"
  shows "mset (aWildcards f) = mset (projA (wildcards t))"
    and "mset (aaaaWildcards f) = mset (projAAAA (wildcards t))"
proof -
  note D = simRelD [OF assms]
  have a: "map_of (aWildcards f) = map_of (projA (wildcards t))"
    by (rule ext) (simp add: projA_def proj_gen_map_of [OF D(5)] D(3) listA_def)
  have b: "map_of (aaaaWildcards f) = map_of (projAAAA (wildcards t))"
    by (rule ext) (simp add: projAAAA_def proj_gen_map_of [OF D(5)] D(4) listAAAA_def)
  have da: "distinct (map fst (projA (wildcards t)))"
    unfolding projA_def by (rule proj_gen_distinct [OF D(5)])
  have db: "distinct (map fst (projAAAA (wildcards t)))"
    unfolding projAAAA_def by (rule proj_gen_distinct [OF D(5)])
  show "mset (aWildcards f) = mset (projA (wildcards t))"
    by (rule same_entries [OF D(6) da a])
  show "mset (aaaaWildcards f) = mset (projAAAA (wildcards t))"
    by (rule same_entries [OF D(7) db b])
qed

lemma concat_proj_gen:
  "concat (map snd (filter (\<lambda>(p, ips). P p)
       (map (\<lambda>(p, rs). (p, g rs)) (filter (\<lambda>(p, rs). g rs \<noteq> []) ws))))
   = concat (map (\<lambda>(p, rs). g rs) (filter (\<lambda>(p, rs). P p) ws))"
  by (induction ws) auto

lemma mset_concat_filter:
  assumes "mset xs = mset ys"
  shows "mset (concat (map snd (filter Q xs))) = mset (concat (map snd (filter Q ys)))"
proof -
  have "mset (concat (map snd (filter Q zs)))
        = sum_mset (image_mset (mset \<circ> snd) (filter_mset Q (mset zs)))" for zs
    by (induction zs) simp_all
  then show ?thesis using assms by simp
qed

lemma flat_fold:
  "fold (\<lambda>(pattern, ips) records. if matchWildcard pattern n then records @ ips else records)
     al acc
   = acc @ concat (map snd (filter (\<lambda>(p, ips). matchWildcard p n) al))"
  by (induction al arbitrary: acc) (auto simp: case_prod_beta)

lemma RecordType_distinct: "RecordTypeA \<noteq> RecordTypeAAAA"
  by (simp add: RecordTypeA_def RecordTypeAAAA_def)

lemma flatGetRecords_eq:
  assumes "q = RecordTypeA \<or> q = RecordTypeAAAA"
  shows "flatGetRecords f d q =
     (case flatExact f q (ToLower (Fqdn d)) of
        Some ips \<Rightarrow> ips
      | None \<Rightarrow> concat (map snd (filter (\<lambda>(p, ips). matchWildcard p (ToLower (Fqdn d)))
                                  (flatWild f q))))"
  using assms RecordType_distinct
  by (auto simp: flatGetRecords_def flatExact_def flatWild_def Let_def flat_fold
      split: option.splits)

lemma flatHasRecord_eq:
  assumes "q = RecordTypeA \<or> q = RecordTypeAAAA"
  shows "flatHasRecord f d q =
     (flatExact f q (ToLower (Fqdn d)) \<noteq> None
      \<or> list_ex (\<lambda>(p, ips). matchWildcard p (ToLower (Fqdn d))) (flatWild f q))"
  using assms RecordType_distinct
  by (auto simp: flatHasRecord_def flatExact_def flatWild_def Let_def)

lemma simRel_typed:
  assumes sim: "simRel t f" and q: "q = RecordTypeA \<or> q = RecordTypeAAAA"
  shows "flatExact f q (normalizeDomain d0) =
           (case trieRS t (normalizeDomain d0) of None \<Rightarrow> None
            | Some rs \<Rightarrow> nonEmptyList (typedList q rs))"
    and "mset (flatWild f q) = mset (projWild q (wildcards t))"
proof -
  note D = simRelD [OF sim]
  show "flatExact f q (normalizeDomain d0) =
           (case trieRS t (normalizeDomain d0) of None \<Rightarrow> None
            | Some rs \<Rightarrow> nonEmptyList (typedList q rs))"
    using q RecordType_distinct
    by (auto simp: flatExact_def typedList_def D(1,2) listA_def listAAAA_def
        split: option.splits)
  have pa: "projWild RecordTypeA ws = projA ws" for ws
    by (simp add: projWild_def projA_def typedList_def)
  have pb: "projWild RecordTypeAAAA ws = projAAAA ws" for ws
    using RecordType_distinct by (simp add: projWild_def projAAAA_def typedList_def)
  show "mset (flatWild f q) = mset (projWild q (wildcards t))"
    using q RecordType_distinct projA_entries [OF sim]
    by (auto simp: flatWild_def pa pb)
qed

lemma concat_projWild:
  "concat (map snd (filter (\<lambda>(p, ips). P p) (projWild q ws)))
   = concat (map (\<lambda>(p, rs). typedList q rs) (filter (\<lambda>(p, rs). P p) ws))"
  unfolding projWild_def by (rule concat_proj_gen)

lemma length_filter_projWild:
  "length (filter (\<lambda>(p, ips). P p) (projWild q ws)) \<le> length (filter (\<lambda>(p, rs). P p) ws)"
  unfolding projWild_def by (induction ws) auto

lemma set_projWild:
  "(\<exists>x\<in>set (projWild q ws). case x of (p, ips) \<Rightarrow> P p)
   \<longleftrightarrow> (\<exists>x\<in>set ws. case x of (p, rs) \<Rightarrow> P p \<and> typedList q rs \<noteq> [])"
  unfolding projWild_def by force

lemma mset_eq_short:
  assumes "mset xs = mset ys" and "length xs \<le> 1"
  shows "xs = ys"
proof (cases xs)
  case Nil
  then show ?thesis using assms(1) by simp
next
  case (Cons x xs')
  with assms(2) have xs: "xs = [x]" by simp
  have "length ys = 1" using mset_eq_length [OF assms(1)] xs by simp
  then obtain y where ys: "ys = [y]" by (cases ys) auto
  show ?thesis using assms(1) unfolding xs ys by simp
qed

text \<open>The record observers on two stores in the simulation relation.\<close>

lemma observers_records:
  assumes sim: "simRel t f" and q: "q = RecordTypeA \<or> q = RecordTypeAAAA"
    and fq: "IsFqdn (Fqdn d)"
  shows "HasRecord t d q = flatHasRecord f d q"
    and "mset (GetRecords t d q) = mset (flatGetRecords f d q)"
    and "exactRecords t d q \<noteq> [] \<Longrightarrow> GetRecords t d q = flatGetRecords f d q"
    and "length (matchingWildcards t d) \<le> 1 \<Longrightarrow> GetRecords t d q = flatGetRecords f d q"
proof -
  let ?n = "ToLower (Fqdn d)"
  let ?M = "\<lambda>(p, ips :: IP list). matchWildcard p ?n"
  let ?E = "exactRecords t d q"
  let ?Wf = "concat (map snd (filter ?M (flatWild f q)))"
  let ?Wt = "concat (map (\<lambda>(p, rs). typedList q rs) (matchingWildcards t d))"
  have n: "?n = normalizeDomain (Fqdn d)" by (rule query_normal [OF fq])
  have E: "?E = (case trieRS t (normalizeDomain (Fqdn d)) of None \<Rightarrow> []
                 | Some rs \<Rightarrow> typedList q rs)"
    using exactRecords_dataAt [OF n] by (simp add: trieRS_def)
  have fe: "flatExact f q ?n = nonEmptyList ?E"
    unfolding n simRel_typed(1) [OF sim q] E [unfolded n]
    by (simp split: option.splits)
  have ms: "mset (flatWild f q) = mset (projWild q (wildcards t))"
    by (rule simRel_typed(2) [OF sim q])
  have Wt: "?Wt = concat (map snd (filter ?M (projWild q (wildcards t))))"
    unfolding matchingWildcards_def concat_projWild ..
  have mW: "mset ?Wf = mset ?Wt"
    unfolding Wt by (rule mset_concat_filter [OF ms])
  have G: "GetRecords t d q = (if ?E \<noteq> [] then ?E else ?Wt)" by (rule GetRecords_eq)
  have Gf: "flatGetRecords f d q = (if ?E \<noteq> [] then ?E else ?Wf)"
    unfolding flatGetRecords_eq [OF q] fe by (simp add: nonEmptyList_def)
  show "mset (GetRecords t d q) = mset (flatGetRecords f d q)"
    unfolding G Gf using mW by simp
  show "?E \<noteq> [] \<Longrightarrow> GetRecords t d q = flatGetRecords f d q"
    unfolding G Gf by simp
  show "GetRecords t d q = flatGetRecords f d q" if le: "length (matchingWildcards t d) \<le> 1"
  proof -
    have "length (filter ?M (projWild q (wildcards t))) \<le> 1"
      using length_filter_projWild [of "\<lambda>p. matchWildcard p ?n" q "wildcards t"] le
      by (simp add: matchingWildcards_def)
    moreover have "mset (filter ?M (projWild q (wildcards t))) = mset (filter ?M (flatWild f q))"
      using ms by simp
    ultimately have "filter ?M (projWild q (wildcards t)) = filter ?M (flatWild f q)"
      by (rule mset_eq_short [rotated])
    then show ?thesis unfolding G Gf Wt by simp
  qed
  have "list_ex ?M (flatWild f q)
        \<longleftrightarrow> list_ex (\<lambda>(p, rs). typedList q rs \<noteq> []) (matchingWildcards t d)"
  proof -
    have "set (flatWild f q) = set (projWild q (wildcards t))" using ms by (rule mset_eq_setD)
    then have "list_ex ?M (flatWild f q)
        \<longleftrightarrow> (\<exists>x\<in>set (projWild q (wildcards t)). case x of (p, ips) \<Rightarrow> matchWildcard p ?n)"
      by (simp add: list_ex_iff)
    also have "\<dots> \<longleftrightarrow> (\<exists>x\<in>set (wildcards t). case x of (p, rs) \<Rightarrow>
                           matchWildcard p ?n \<and> typedList q rs \<noteq> [])"
      by (rule set_projWild)
    also have "\<dots> \<longleftrightarrow> list_ex (\<lambda>(p, rs). typedList q rs \<noteq> []) (matchingWildcards t d)"
      by (auto simp: list_ex_iff matchingWildcards_def)
    finally show ?thesis .
  qed
  then show "HasRecord t d q = flatHasRecord f d q"
    unfolding HasRecord_eq [OF q] flatHasRecord_eq [OF q] fe by simp
qed

lemma observers_ptr:
  assumes "simRel t f"
  shows "GetPTRRecord t r = flatGetPTRRecord f r"
    and "HasPTRRecord t r = flatHasPTRRecord f r"
  using simRelD(8) [OF assms]
  by (simp_all add: GetPTRRecord_def flatGetPTRRecord_def HasPTRRecord_def flatHasPTRRecord_def
      cong: option.case_cong)

text \<open>\<^verbatim>\<open>AddPTRRecord\<close> touches only the PTR map, and no operation reads the PTR map to
  decide what happens to the address records.\<close>

lemma records_step:
  assumes "root t = root t'" and "wildcards t = wildcards t'"
  shows "root (applyOp t op) = root (applyOp t' op)
       \<and> wildcards (applyOp t op) = wildcards (applyOp t' op)"
proof (cases op)
  case (OpAddRecord d ip)
  then show ?thesis using assms
    by (simp add: afterAddRecord_def AddRecord_def Let_def)
next
  case (OpAddPTRRecord ip d)
  then show ?thesis using assms by (simp add: AddPTRRecord_def Let_def)
next
  case (OpRemoveRecord d ipOpt)
  then show ?thesis using assms
    by (simp add: RemoveRecord_def Let_def split: option.splits)
next
  case (OpRemovePTRRecord ip)
  then show ?thesis using assms by (simp add: RemovePTRRecord_def)
next
  case OpClear
  then show ?thesis by (simp add: Clear_def)
qed

lemma records_skip:
  assumes "isAddPTRRecord op"
  shows "root (applyOp t op) = root t \<and> wildcards (applyOp t op) = wildcards t"
  using assms by (cases op) (simp_all add: AddPTRRecord_def Let_def)

lemma records_foldl:
  assumes "root t = root t'" and "wildcards t = wildcards t'"
  shows "root (foldl applyOp t ops)
           = root (foldl applyOp t' (filter (\<lambda>op. \<not> isAddPTRRecord op) ops))
       \<and> wildcards (foldl applyOp t ops)
           = wildcards (foldl applyOp t' (filter (\<lambda>op. \<not> isAddPTRRecord op) ops))"
  using assms
proof (induction ops arbitrary: t t')
  case Nil
  then show ?case by simp
next
  case (Cons op ops)
  show ?case
  proof (cases "isAddPTRRecord op")
    case True
    have "root (applyOp t op) = root t'" "wildcards (applyOp t op) = wildcards t'"
      using records_skip [OF True, of t] Cons.prems by simp_all
    from Cons.IH [OF this] show ?thesis using True by simp
  next
    case False
    have "root (applyOp t op) = root (applyOp t' op)"
      "wildcards (applyOp t op) = wildcards (applyOp t' op)"
      using records_step [OF Cons.prems, of op] by simp_all
    from Cons.IH [OF this] show ?thesis using False by simp
  qed
qed

lemma flat_records_step:
  assumes "aRecords f = aRecords f'" and "aaaaRecords f = aaaaRecords f'"
    and "aWildcards f = aWildcards f'" and "aaaaWildcards f = aaaaWildcards f'"
  shows "aRecords (flatApplyOp f op) = aRecords (flatApplyOp f' op)
       \<and> aaaaRecords (flatApplyOp f op) = aaaaRecords (flatApplyOp f' op)
       \<and> aWildcards (flatApplyOp f op) = aWildcards (flatApplyOp f' op)
       \<and> aaaaWildcards (flatApplyOp f op) = aaaaWildcards (flatApplyOp f' op)"
proof (cases op)
  case (OpAddRecord d ip)
  then show ?thesis using assms
    by (simp add: flatAfterAddRecord_def flatAddRecord_def Let_def)
next
  case (OpAddPTRRecord ip d)
  then show ?thesis using assms by (simp add: flatAddPTRRecord_def Let_def)
next
  case (OpRemoveRecord d ipOpt)
  then show ?thesis using assms
    by (simp add: flatRemoveRecord_def Let_def split: option.splits)
next
  case (OpRemovePTRRecord ip)
  then show ?thesis using assms by (simp add: flatRemovePTRRecord_def)
next
  case OpClear
  then show ?thesis by (simp add: flatClear_def)
qed

lemma flat_records_skip:
  assumes "isAddPTRRecord op"
  shows "aRecords (flatApplyOp f op) = aRecords f
       \<and> aaaaRecords (flatApplyOp f op) = aaaaRecords f
       \<and> aWildcards (flatApplyOp f op) = aWildcards f
       \<and> aaaaWildcards (flatApplyOp f op) = aaaaWildcards f"
  using assms by (cases op) (simp_all add: flatAddPTRRecord_def Let_def)

lemma flat_records_foldl:
  assumes "aRecords f = aRecords f'" and "aaaaRecords f = aaaaRecords f'"
    and "aWildcards f = aWildcards f'" and "aaaaWildcards f = aaaaWildcards f'"
  shows "aRecords (foldl flatApplyOp f ops)
           = aRecords (foldl flatApplyOp f' (filter (\<lambda>op. \<not> isAddPTRRecord op) ops))
       \<and> aaaaRecords (foldl flatApplyOp f ops)
           = aaaaRecords (foldl flatApplyOp f' (filter (\<lambda>op. \<not> isAddPTRRecord op) ops))
       \<and> aWildcards (foldl flatApplyOp f ops)
           = aWildcards (foldl flatApplyOp f' (filter (\<lambda>op. \<not> isAddPTRRecord op) ops))
       \<and> aaaaWildcards (foldl flatApplyOp f ops)
           = aaaaWildcards (foldl flatApplyOp f' (filter (\<lambda>op. \<not> isAddPTRRecord op) ops))"
  using assms
proof (induction ops arbitrary: f f')
  case Nil
  then show ?case by simp
next
  case (Cons op ops)
  show ?case
  proof (cases "isAddPTRRecord op")
    case True
    have "aRecords (flatApplyOp f op) = aRecords f'"
      "aaaaRecords (flatApplyOp f op) = aaaaRecords f'"
      "aWildcards (flatApplyOp f op) = aWildcards f'"
      "aaaaWildcards (flatApplyOp f op) = aaaaWildcards f'"
      using flat_records_skip [OF True, of f] Cons.prems by simp_all
    from Cons.IH [OF this] show ?thesis using True by simp
  next
    case False
    have "aRecords (flatApplyOp f op) = aRecords (flatApplyOp f' op)"
      "aaaaRecords (flatApplyOp f op) = aaaaRecords (flatApplyOp f' op)"
      "aWildcards (flatApplyOp f op) = aWildcards (flatApplyOp f' op)"
      "aaaaWildcards (flatApplyOp f op) = aaaaWildcards (flatApplyOp f' op)"
      using flat_records_step [OF Cons.prems, of op] by simp_all
    from Cons.IH [OF this] show ?thesis using False by simp
  qed
qed

lemma record_observers_cong:
  assumes "root t = root t'" and "wildcards t = wildcards t'"
  shows "GetRecords t d q = GetRecords t' d q" and "HasRecord t d q = HasRecord t' d q"
    and "exactRecords t d q = exactRecords t' d q"
    and "matchingWildcards t d = matchingWildcards t' d"
  unfolding GetRecords_def HasRecord_def exactRecords_def matchingWildcards_def assms
  by (rule refl)+

lemma flat_record_observers_cong:
  assumes "aRecords f = aRecords f'" and "aaaaRecords f = aaaaRecords f'"
    and "aWildcards f = aWildcards f'" and "aaaaWildcards f = aaaaWildcards f'"
  shows "flatGetRecords f d q = flatGetRecords f' d q"
    and "flatHasRecord f d q = flatHasRecord f' d q"
  unfolding flatGetRecords_def flatHasRecord_def assms by (rule refl)+

lemma runOps_records:
  "GetRecords (runOps ops) d q = GetRecords (runOps (filter (\<lambda>op. \<not> isAddPTRRecord op) ops)) d q"
  "HasRecord (runOps ops) d q = HasRecord (runOps (filter (\<lambda>op. \<not> isAddPTRRecord op) ops)) d q"
  "exactRecords (runOps ops) d q
     = exactRecords (runOps (filter (\<lambda>op. \<not> isAddPTRRecord op) ops)) d q"
  "matchingWildcards (runOps ops) d
     = matchingWildcards (runOps (filter (\<lambda>op. \<not> isAddPTRRecord op) ops)) d"
  "flatGetRecords (flatRunOps ops) d q
     = flatGetRecords (flatRunOps (filter (\<lambda>op. \<not> isAddPTRRecord op) ops)) d q"
  "flatHasRecord (flatRunOps ops) d q
     = flatHasRecord (flatRunOps (filter (\<lambda>op. \<not> isAddPTRRecord op) ops)) d q"
proof -
  have a: "root (runOps ops) = root (runOps (filter (\<lambda>op. \<not> isAddPTRRecord op) ops))"
    "wildcards (runOps ops) = wildcards (runOps (filter (\<lambda>op. \<not> isAddPTRRecord op) ops))"
    unfolding runOps_def using records_foldl [of NewDNSRecordStore NewDNSRecordStore ops]
    by simp_all
  have b: "aRecords (flatRunOps ops)
             = aRecords (flatRunOps (filter (\<lambda>op. \<not> isAddPTRRecord op) ops))"
    "aaaaRecords (flatRunOps ops)
             = aaaaRecords (flatRunOps (filter (\<lambda>op. \<not> isAddPTRRecord op) ops))"
    "aWildcards (flatRunOps ops)
             = aWildcards (flatRunOps (filter (\<lambda>op. \<not> isAddPTRRecord op) ops))"
    "aaaaWildcards (flatRunOps ops)
             = aaaaWildcards (flatRunOps (filter (\<lambda>op. \<not> isAddPTRRecord op) ops))"
    unfolding flatRunOps_def
    using flat_records_foldl [of flatNewDNSRecordStore flatNewDNSRecordStore ops]
    by simp_all
  show "GetRecords (runOps ops) d q
          = GetRecords (runOps (filter (\<lambda>op. \<not> isAddPTRRecord op) ops)) d q"
    by (rule record_observers_cong(1) [OF a])
  show "HasRecord (runOps ops) d q
          = HasRecord (runOps (filter (\<lambda>op. \<not> isAddPTRRecord op) ops)) d q"
    by (rule record_observers_cong(2) [OF a])
  show "exactRecords (runOps ops) d q
     = exactRecords (runOps (filter (\<lambda>op. \<not> isAddPTRRecord op) ops)) d q"
    by (rule record_observers_cong(3) [OF a])
  show "matchingWildcards (runOps ops) d
     = matchingWildcards (runOps (filter (\<lambda>op. \<not> isAddPTRRecord op) ops)) d"
    by (rule record_observers_cong(4) [OF a])
  show "flatGetRecords (flatRunOps ops) d q
     = flatGetRecords (flatRunOps (filter (\<lambda>op. \<not> isAddPTRRecord op) ops)) d q"
    by (rule flat_record_observers_cong(1) [OF b])
  show "flatHasRecord (flatRunOps ops) d q
     = flatHasRecord (flatRunOps (filter (\<lambda>op. \<not> isAddPTRRecord op) ops)) d q"
    by (rule flat_record_observers_cong(2) [OF b])
qed

lemma stores_equivalent:
  "(\<forall>d q. IsFqdn (Fqdn d) \<and> (q = RecordTypeA \<or> q = RecordTypeAAAA) \<longrightarrow>
       HasRecord (runOps ops) d q = flatHasRecord (flatRunOps ops) d q
     \<and> mset (GetRecords (runOps ops) d q) = mset (flatGetRecords (flatRunOps ops) d q)
     \<and> (exactRecords (runOps ops) d q \<noteq> [] \<or> length (matchingWildcards (runOps ops) d) \<le> 1
          \<longrightarrow> GetRecords (runOps ops) d q = flatGetRecords (flatRunOps ops) d q))
   \<and> (list_all (\<lambda>op. \<not> isAddPTRRecord op) ops \<longrightarrow>
       (\<forall>r. GetPTRRecord (runOps ops) r = flatGetPTRRecord (flatRunOps ops) r
          \<and> HasPTRRecord (runOps ops) r = flatHasPTRRecord (flatRunOps ops) r))"
proof -
  let ?ops = "filter (\<lambda>op. \<not> isAddPTRRecord op) ops"
  have "list_all (\<lambda>op. \<not> isAddPTRRecord op) ?ops" by (simp add: list_all_iff)
  then have sim': "simRel (runOps ?ops) (flatRunOps ?ops)" by (rule simRel_runOps)
  have rec: "HasRecord (runOps ops) d q = flatHasRecord (flatRunOps ops) d q
     \<and> mset (GetRecords (runOps ops) d q) = mset (flatGetRecords (flatRunOps ops) d q)
     \<and> (exactRecords (runOps ops) d q \<noteq> [] \<or> length (matchingWildcards (runOps ops) d) \<le> 1
          \<longrightarrow> GetRecords (runOps ops) d q = flatGetRecords (flatRunOps ops) d q)"
    if fq: "IsFqdn (Fqdn d)" and q: "q = RecordTypeA \<or> q = RecordTypeAAAA" for d q
    unfolding runOps_records [of ops]
    using observers_records [OF sim' q fq] by blast
  have ptr: "GetPTRRecord (runOps ops) r = flatGetPTRRecord (flatRunOps ops) r
          \<and> HasPTRRecord (runOps ops) r = flatHasPTRRecord (flatRunOps ops) r"
    if "list_all (\<lambda>op. \<not> isAddPTRRecord op) ops" for r
    using observers_ptr [OF simRel_runOps [OF that]] by simp
  show ?thesis using rec ptr by blast
qed

text \<open>
  C4 (as amended). The trie store and the flat store after the same sequence of calls, all
  names of ASCII bytes. For every sequence, every name whose fully qualified form is accepted
  by \<^verbatim>\<open>dns.IsFqdn\<close> (it does not end in an escaped dot) and the types A and AAAA:
  \<^verbatim>\<open>HasRecord\<close> returns the same on both; \<^verbatim>\<open>GetRecords\<close> returns the same addresses with
  the same multiplicities, and the same list when the name has exact records of the type or
  when at most one wildcard pattern matches it (the order of several matching patterns is the
  iteration order of a map). For every sequence without \<^verbatim>\<open>AddPTRRecord\<close>,
  \<^verbatim>\<open>GetPTRRecord\<close> and \<^verbatim>\<open>HasPTRRecord\<close> return the same on both for every name.
\<close>

theorem C4_equivalence:
  assumes "list_all asciiOp ops"
  shows "(\<forall>d q. isASCII d \<and> IsFqdn (Fqdn d) \<and> (q = RecordTypeA \<or> q = RecordTypeAAAA) \<longrightarrow>
       HasRecord (runOps ops) d q = flatHasRecord (flatRunOps ops) d q
     \<and> mset (GetRecords (runOps ops) d q) = mset (flatGetRecords (flatRunOps ops) d q)
     \<and> (exactRecords (runOps ops) d q \<noteq> [] \<or> length (matchingWildcards (runOps ops) d) \<le> 1
          \<longrightarrow> GetRecords (runOps ops) d q = flatGetRecords (flatRunOps ops) d q))
   \<and> (list_all (\<lambda>op. \<not> isAddPTRRecord op) ops \<longrightarrow>
       (\<forall>r. isASCII r \<longrightarrow>
          GetPTRRecord (runOps ops) r = flatGetPTRRecord (flatRunOps ops) r
          \<and> HasPTRRecord (runOps ops) r = flatHasPTRRecord (flatRunOps ops) r))"
  using stores_equivalent [of ops] by blast

theorem C4_equivalence_witness:
  "HasRecord (runOps [OpAddRecord ''a.'' [10, 0, 0, 1], OpAddRecord ''*.b'' [10, 0, 0, 2]])
       ''x.b'' RecordTypeA
     = flatHasRecord (flatRunOps [OpAddRecord ''a.'' [10, 0, 0, 1], OpAddRecord ''*.b'' [10, 0, 0, 2]])
         ''x.b'' RecordTypeA
   \<and> GetRecords (runOps [OpAddRecord ''a.'' [10, 0, 0, 1], OpAddRecord ''*.b'' [10, 0, 0, 2]])
       ''x.b'' RecordTypeA
     = flatGetRecords
         (flatRunOps [OpAddRecord ''a.'' [10, 0, 0, 1], OpAddRecord ''*.b'' [10, 0, 0, 2]])
         ''x.b'' RecordTypeA
   \<and> GetRecords (runOps [OpAddRecord ''a.'' [10, 0, 0, 1], OpAddRecord ''*.b'' [10, 0, 0, 2]])
       ''x.b'' RecordTypeA = [[10, 0, 0, 2]]
   \<and> GetPTRRecord (runOps [OpAddRecord ''a.'' [10, 0, 0, 1], OpAddRecord ''*.b'' [10, 0, 0, 2]])
       ''1.0.0.10.in-addr.arpa.''
     = flatGetPTRRecord
         (flatRunOps [OpAddRecord ''a.'' [10, 0, 0, 1], OpAddRecord ''*.b'' [10, 0, 0, 2]])
         ''1.0.0.10.in-addr.arpa.''
   \<and> flatGetPTRRecord
         (flatRunOps [OpAddRecord ''a.'' [10, 0, 0, 1], OpAddRecord ''*.b'' [10, 0, 0, 2]])
         ''1.0.0.10.in-addr.arpa.'' = (''a.'', True)"
proof -
  let ?w = "[OpAddRecord ''a.'' [10, 0, 0, 1], OpAddRecord ''*.b'' [10, 0, 0, 2]]"
  have asc: "list_all asciiOp ?w" by code_simp
  have ad: "isASCII ''x.b''" and ar: "isASCII ''1.0.0.10.in-addr.arpa.''" by code_simp+
  have fq: "IsFqdn (Fqdn ''x.b'')" by code_simp
  have le: "length (matchingWildcards (runOps ?w) ''x.b'') \<le> 1" by code_simp
  have na: "list_all (\<lambda>op. \<not> isAddPTRRecord op) ?w" by simp
  have g: "GetRecords (runOps ?w) ''x.b'' RecordTypeA = [[10, 0, 0, 2]]" by code_simp
  have p: "flatGetPTRRecord (flatRunOps ?w) ''1.0.0.10.in-addr.arpa.'' = (''a.'', True)"
    by code_simp
  show ?thesis
    using C4_equivalence [OF asc] ad ar fq le na g p by blast
qed

lemma flatGetPTRRecord_reverse:
  assumes "validIP ip"
  shows "flatGetPTRRecord f (IPToReverseDNS ip) =
           (case flatPtrRecords f (IPString ip) of
              Some ptrDomain \<Rightarrow> (ptrDomain, True)
            | None \<Rightarrow> ('''', False))"
  using IPString_roundtrip [OF assms] by (auto simp: flatGetPTRRecord_def)

lemma PTR_divergence:
  assumes v6: "To4 ip6 = None" "length ip6 = 16" and v4: "To4 ip4 \<noteq> None"
    and exact: "\<not> ContainsAny d ''*?''"
  shows "GetPTRRecord
           (runOps [OpAddRecord d ip6, OpAddPTRRecord ip4 d, OpRemoveRecord d (Some ip4)])
           (IPToReverseDNS ip4) = ('''', False)"
    and "flatGetPTRRecord
           (flatRunOps [OpAddRecord d ip6, OpAddPTRRecord ip4 d, OpRemoveRecord d (Some ip4)])
           (IPToReverseDNS ip4) = (normalizeDomain d, True)"
proof -
  let ?n = "normalizeDomain d"
  have val6: "validIP ip6" using v6 by (simp add: validIP_length)
  have val4: "validIP ip4" using v4 by (simp add: validIP_def)
  define s1 where "s1 = afterAddRecord NewDNSRecordStore d ip6"
  define s2 where "s2 = AddPTRRecord s1 ip4 d"
  have s1: "s1 = NewDNSRecordStore
       \<lparr>root := addAtPath (root NewDNSRecordStore) (domainToPath ?n) False ip6,
         ptrRecords := (ptrRecords NewDNSRecordStore)(IPString ip6 \<mapsto> ?n)\<rparr>"
    unfolding s1_def afterAddRecord_exact [OF val6 exact] using v6 by simp
  have d2: "dataAt (root s2) (domainToPath ?n)
              = Some (appendIP False ip6 (dataAt (root NewDNSRecordStore) (domainToPath ?n)))"
    unfolding s2_def s1 by (simp add: AddPTRRecord_def Let_def dataAt_addAtPath_same)
  have p2: "ptrRecords s2 (IPString ip4) = Some ?n"
    unfolding s2_def by (simp add: AddPTRRecord_def Let_def)
  have "ptrRecords (RemoveRecord s2 d (Some ip4)) (IPString ip4) = None"
    unfolding RemoveRecord_exact_ip [OF exact d2] Let_def using p2
    by (simp add: deletePTRIfOwned_def)
  then show "GetPTRRecord
           (runOps [OpAddRecord d ip6, OpAddPTRRecord ip4 d, OpRemoveRecord d (Some ip4)])
           (IPToReverseDNS ip4) = ('''', False)"
    unfolding GetPTRRecord_reverse [OF val4]
    by (simp add: runOps_def s1_def s2_def)
  define f1 where "f1 = flatAfterAddRecord flatNewDNSRecordStore d ip6"
  define f2 where "f2 = flatAddPTRRecord f1 ip4 d"
  have f1: "f1 = flatNewDNSRecordStore
       \<lparr>aaaaRecords := (aaaaRecords flatNewDNSRecordStore)(?n \<mapsto>
                            sliceOf (aaaaRecords flatNewDNSRecordStore ?n) @ [ip6]),
         flatPtrRecords := (flatPtrRecords flatNewDNSRecordStore)(IPString ip6 \<mapsto> ?n)\<rparr>"
    unfolding f1_def
    using flatAfterAddRecord_cases [of ip6 flatNewDNSRecordStore d] val6 v6 exact by simp
  have a2: "aRecords f2 ?n = None"
    unfolding f2_def f1 by (simp add: flatAddPTRRecord_def Let_def flatNewDNSRecordStore_def)
  have q2: "flatPtrRecords f2 (IPString ip4) = Some ?n"
    unfolding f2_def by (simp add: flatAddPTRRecord_def Let_def)
  have "flatPtrRecords (flatRemoveRecord f2 d (Some ip4)) (IPString ip4) = Some ?n"
    unfolding flatRemoveRecord_exact_ip(5) [OF exact] using v4 a2 q2 by simp
  then show "flatGetPTRRecord
           (flatRunOps [OpAddRecord d ip6, OpAddPTRRecord ip4 d, OpRemoveRecord d (Some ip4)])
           (IPToReverseDNS ip4) = (normalizeDomain d, True)"
    unfolding flatGetPTRRecord_reverse [OF val4]
    by (simp add: flatRunOps_def f1_def f2_def)
qed

lemma escaped_name_divergence:
  "GetRecords (runOps [OpAddRecord [CHR ''a'', backslash] [10, 0, 0, 1]]) [CHR ''a'', backslash]
      RecordTypeA = [[10, 0, 0, 1]]
   \<and> flatGetRecords (flatRunOps [OpAddRecord [CHR ''a'', backslash] [10, 0, 0, 1]])
      [CHR ''a'', backslash] RecordTypeA = []"
  by code_simp

text \<open>
  Two sequences of calls on which the stores differ. After \<^verbatim>\<open>AddRecord\<close> of an IPv6 address
  for \<open>a.\<close>, \<^verbatim>\<open>AddPTRRecord\<close> of an IPv4 address for \<open>a.\<close> and \<^verbatim>\<open>RemoveRecord\<close> of that
  IPv4 address from \<open>a.\<close>, the trie store has deleted the PTR entry (the node of \<open>a.\<close> has
  a record set) and the flat store has kept it (it has no A list for \<open>a.\<close>). After
  \<^verbatim>\<open>AddRecord\<close> for the name \<open>a\<close> followed by a backslash, the trie store finds the
  address under that name (\<^verbatim>\<open>domainToPath\<close> qualifies the name once more) and the flat
  store does not (the key of the query is not the stored key).
\<close>

theorem C4_divergence_counterexample:
  "GetPTRRecord
     (runOps [OpAddRecord ''a.'' [32, 1, 13, 184, 0, 0, 0, 0, 0, 0, 0, 0, 0, 0, 0, 1],
              OpAddPTRRecord [10, 0, 0, 1] ''a.'',
              OpRemoveRecord ''a.'' (Some [10, 0, 0, 1])])
     ''1.0.0.10.in-addr.arpa.'' = ('''', False)
   \<and> flatGetPTRRecord
     (flatRunOps [OpAddRecord ''a.'' [32, 1, 13, 184, 0, 0, 0, 0, 0, 0, 0, 0, 0, 0, 0, 1],
              OpAddPTRRecord [10, 0, 0, 1] ''a.'',
              OpRemoveRecord ''a.'' (Some [10, 0, 0, 1])])
     ''1.0.0.10.in-addr.arpa.'' = (''a.'', True)
   \<and> GetRecords (runOps [OpAddRecord [CHR ''a'', backslash] [10, 0, 0, 1]]) [CHR ''a'', backslash]
      RecordTypeA = [[10, 0, 0, 1]]
   \<and> flatGetRecords (flatRunOps [OpAddRecord [CHR ''a'', backslash] [10, 0, 0, 1]])
      [CHR ''a'', backslash] RecordTypeA = []"
proof -
  have v6: "To4 [32, 1, 13, 184, 0, 0, 0, 0, 0, 0, 0, 0, 0, 0, 0, 1 :: 8 word] = None"
    by (simp add: To4_def v4InV6Prefix_def)
  have v4: "To4 [10, 0, 0, 1 :: 8 word] \<noteq> None" by (simp add: To4_def)
  have e: "\<not> ContainsAny ''a.'' ''*?''" by (simp add: ContainsAny_def)
  have r: "IPToReverseDNS [10, 0, 0, 1] = ''1.0.0.10.in-addr.arpa.''" by code_simp
  have n: "normalizeDomain ''a.'' = ''a.''" by code_simp
  show ?thesis
    using PTR_divergence [OF v6 _ v4 e] escaped_name_divergence unfolding r n by simp
qed

end
